theory Spec2Isabelle
  imports Main
begin

section \<open>Data model of \<^verbatim>\<open>storage_api_browser_ext.ts\<close>\<close>

text \<open>
  The browser-extension storage backend keeps a knowledge graph in a flat key-value
  substrate (\<^verbatim>\<open>browser.Storage.StorageArea\<close>). Keys are typed (\<^verbatim>\<open>Yek\<close>), values are
  tagged with their kind (\<^verbatim>\<open>Lav\<close>), and \<^verbatim>\<open>YekLavStore\<close> turns the former into substrate
  strings. Identifiers and timestamps that the source draws from \<^verbatim>\<open>uuidv4()\<close> and
  \<^verbatim>\<open>unixtime.now()\<close> are explicit arguments of the modelled operations.
\<close>

type_synonym Nid = string
type_synonym Eid = string

text \<open>\<^verbatim>\<open>OriginId = { id: OriginHash }\<close> with a numeric hash.\<close>

datatype OriginId = OriginId (origin_hash: int)

datatype UserExternalPipelineId = UserExternalPipelineId (pipeline_key: string)

text \<open>Only the \<^verbatim>\<open>autoIngestion\<close> alternative of \<^verbatim>\<open>NodeCreatedVia\<close> is inspected.\<close>

datatype NodeCreatedVia = AutoIngestion UserExternalPipelineId | OtherVia

text \<open>\<^verbatim>\<open>NodeType.Text\<close> is the only member the backend names; the rest are kept by number.\<close>

datatype NodeType = Text | OtherNodeType nat

text \<open>Payloads that the backend stores and returns without looking inside.\<close>

type_synonym NodeTextData = string
type_synonym NodeExtattrs = string
type_synonym NodeIndexText = string
type_synonym UserExternalAssociationType = string

record NodeTag =
  tag_nid :: Nid
  tag_created_at :: int

record TNodeJson =
  nid :: Nid
  ntype :: NodeType
  node_text :: NodeTextData
  extattrs :: "NodeExtattrs option"
  index_text :: "NodeIndexText option"
  created_at :: int
  updated_at :: int

record TEdgeJson =
  eid :: Eid
  from_nid :: Nid
  to_nid :: Nid
  crtd :: int
  upd :: int
  is_sticky :: bool

datatype Direction = DirFrom | DirTo

record OriginToExtAssociationValue =
  direction :: Direction
  other :: OriginId
  association :: UserExternalAssociationType

text \<open>
  The stored progress value. \<^verbatim>\<open>advanceUserIngestionProgress\<close> writes the whole progress
  object, so a stored value may carry the pipeline id next to the watermark.
\<close>

record ProgressValue =
  stored_epid :: "UserExternalPipelineId option"
  stored_ingested_until :: int

record Auxiliary =
  aux_origin :: "OriginId option"
  aux_created_via :: "NodeCreatedVia option"

datatype Kind =
    K_all_nids
  | K_nid_to_node
  | K_origin_to_nid
  | K_nid_to_edge
  | K_origin_to_activity
  | K_ext_pipe_id_to_progress
  | K_ext_pipe_id_to_nid
  | K_origin_to_ext_assoc
  | K_nid_to_sim_search_node
  | K_account_info

datatype Yek =
    AllNidsYek
  | NidToNodeYek Nid
  | OriginToNidYek OriginId
  | NidToEdgeYek Nid
  | OriginToActivityYek OriginId
  | ExtPipelineYek UserExternalPipelineId
  | ExtPipelineToNidYek UserExternalPipelineId
  | OriginToExtAssociationYek OriginId
  | NidToNodeSimilaritySearchInfoYek Nid
  | UserAccountInfoYek

fun yek_kind :: "Yek \<Rightarrow> Kind" where
  "yek_kind AllNidsYek = K_all_nids"
| "yek_kind (NidToNodeYek _) = K_nid_to_node"
| "yek_kind (OriginToNidYek _) = K_origin_to_nid"
| "yek_kind (NidToEdgeYek _) = K_nid_to_edge"
| "yek_kind (OriginToActivityYek _) = K_origin_to_activity"
| "yek_kind (ExtPipelineYek _) = K_ext_pipe_id_to_progress"
| "yek_kind (ExtPipelineToNidYek _) = K_ext_pipe_id_to_nid"
| "yek_kind (OriginToExtAssociationYek _) = K_origin_to_ext_assoc"
| "yek_kind (NidToNodeSimilaritySearchInfoYek _) = K_nid_to_sim_search_node"
| "yek_kind UserAccountInfoYek = K_account_info"

text \<open>
  A stored value is JSON: an array of elements, or a single object. The elements that
  the backend puts into arrays are node tags, \<^verbatim>\<open>{ nid }\<close> references, edges and
  association entries. \<^verbatim>\<open>OpaqueV\<close> stands for the object payloads (activity,
  similarity-search info, account info) that no operation modelled here inspects.
\<close>

datatype Elem =
    TagE NodeTag
  | NidE Nid
  | EdgeE TEdgeJson
  | AssocE OriginToExtAssociationValue

datatype Value =
    ArrV "Elem list"
  | NodeV TNodeJson
  | ProgressV ProgressValue
  | OpaqueV string

record Lav =
  kind :: Kind
  lav_value :: Value
  auxiliary :: "Auxiliary option"

type_synonym YekLav = "Yek \<times> Lav"

text \<open>
  The substrate: its contents, and the bulk writes it has been asked to perform, in
  order. Reads are not recorded.
\<close>

datatype SubstrateCall = StoreSet "(string \<times> Lav) list" | StoreRemove "string list"

record StorageArea =
  contents :: "string \<Rightarrow> Lav option"
  calls :: "SubstrateCall list"

datatype Error =
    SetMismatchedKinds Kind Kind
  | SetDuplicateKey string
  | AppendMismatchedKinds Kind Kind
  | AppendNonArray
  | RemovalNonArray
  | NodeNotFound Nid
  | IteratorNodeNotFound Nid
  | AssociationInconsistent int int
  | IllTyped

text \<open>
  \<^verbatim>\<open>IllTyped\<close> is not an error of the source. It marks the places where the source reads
  a stored value through a static type (the overloads of \<^verbatim>\<open>YekLavStore.get\<close>) and the
  value found has another shape; the source has no defined behaviour there.
\<close>

definition bindE :: "Error + 'a \<Rightarrow> ('a \<Rightarrow> Error + 'b) \<Rightarrow> Error + 'b" where
  "bindE m f = (case m of Inl e \<Rightarrow> Inl e | Inr x \<Rightarrow> f x)"

fun mapE :: "('a \<Rightarrow> Error + 'b) \<Rightarrow> 'a list \<Rightarrow> Error + 'b list" where
  "mapE f [] = Inr []"
| "mapE f (x # xs) = bindE (f x) (\<lambda>y. bindE (mapE f xs) (\<lambda>ys. Inr (y # ys)))"

section \<open>Key codec\<close>

text \<open>Decimal rendering of an integral JavaScript number, as string concatenation does it.\<close>

definition digit_char :: "nat \<Rightarrow> char" where
  "digit_char d = ''0123456789'' ! d"

fun nat_toString :: "nat \<Rightarrow> string" where
  "nat_toString n = (if n < 10 then [digit_char n] else nat_toString (n div 10) @ [digit_char (n mod 10)])"

definition number_toString :: "int \<Rightarrow> string" where
  "number_toString i = (if i < 0 then CHR ''-'' # nat_toString (nat (- i)) else nat_toString (nat i))"

fun stringify :: "Yek \<Rightarrow> string" where
  "stringify AllNidsYek = ''all-nids''"
| "stringify (NidToNodeYek k) = ''nid->node:'' @ k"
| "stringify (OriginToNidYek k) = ''origin->nid:'' @ number_toString (origin_hash k)"
| "stringify (NidToEdgeYek k) = ''nid->edge:'' @ k"
| "stringify (OriginToActivityYek k) = ''origin->activity:'' @ number_toString (origin_hash k)"
| "stringify (ExtPipelineYek k) = ''ext-pipe:'' @ pipeline_key k"
| "stringify (ExtPipelineToNidYek k) = ''ext-pipe-id->nid:'' @ pipeline_key k"
| "stringify (OriginToExtAssociationYek k) = ''origin->ext-assoc:'' @ number_toString (origin_hash k)"
| "stringify (NidToNodeSimilaritySearchInfoYek k) = ''nid->sim-search-node:'' @ k"
| "stringify UserAccountInfoYek = ''account-info''"

section \<open>Record store (\<^verbatim>\<open>YekLavStore\<close>)\<close>

definition isOfArrayKind :: "Lav \<Rightarrow> bool" where
  "isOfArrayKind lav = (case lav_value lav of ArrV _ \<Rightarrow> True | _ \<Rightarrow> False)"

text \<open>First loop of \<^verbatim>\<open>set\<close>: the first pair whose kinds differ, if any.\<close>

fun first_mismatch :: "YekLav list \<Rightarrow> (Kind \<times> Kind) option" where
  "first_mismatch [] = None"
| "first_mismatch ((yek, lav) # items) =
     (if yek_kind yek \<noteq> kind lav then Some (yek_kind yek, kind lav) else first_mismatch items)"

text \<open>
  Second loop of \<^verbatim>\<open>set\<close>: \<^verbatim>\<open>records\<close> is the object built so far, as its entries in
  insertion order.
\<close>

fun collect_records :: "(string \<times> Lav) list \<Rightarrow> YekLav list \<Rightarrow> Error + (string \<times> Lav) list" where
  "collect_records records [] = Inr records"
| "collect_records records ((yek, lav) # items) =
     (let key = stringify yek in
      if key \<in> set (map fst records) then Inl (SetDuplicateKey key)
      else collect_records (records @ [(key, lav)]) items)"

definition put_record :: "(string \<Rightarrow> Lav option) \<Rightarrow> string \<times> Lav \<Rightarrow> (string \<Rightarrow> Lav option)" where
  "put_record m r = m(fst r \<mapsto> snd r)"

definition substrate_set :: "StorageArea \<Rightarrow> (string \<times> Lav) list \<Rightarrow> StorageArea" where
  "substrate_set s records =
     s\<lparr>contents := foldl put_record (contents s) records,
       calls := calls s @ [StoreSet records]\<rparr>"

definition substrate_remove :: "StorageArea \<Rightarrow> string list \<Rightarrow> StorageArea" where
  "substrate_remove s keys =
     s\<lparr>contents := (\<lambda>k. if k \<in> set keys then None else contents s k),
       calls := calls s @ [StoreRemove keys]\<rparr>"

definition store_set :: "StorageArea \<Rightarrow> YekLav list \<Rightarrow> (Error + unit) \<times> StorageArea" where
  "store_set s items =
     (case first_mismatch items of
        Some (k1, k2) \<Rightarrow> (Inl (SetMismatchedKinds k1 k2), s)
      | None \<Rightarrow>
          (case collect_records [] items of
             Inl e \<Rightarrow> (Inl e, s)
           | Inr records \<Rightarrow> (Inr (), substrate_set s records)))"

definition store_get :: "StorageArea \<Rightarrow> Yek \<Rightarrow> Lav option" where
  "store_get s yek = contents s (stringify yek)"

text \<open>\<^verbatim>\<open>Map.set\<close>: a key already present keeps its position and takes the new value.\<close>

fun map_set :: "(string \<times> Yek) list \<Rightarrow> string \<Rightarrow> Yek \<Rightarrow> (string \<times> Yek) list" where
  "map_set [] k y = [(k, y)]"
| "map_set ((k', y') # m) k y = (if k' = k then (k, y) # m else (k', y') # map_set m k y)"

definition store_get_batch :: "StorageArea \<Rightarrow> Yek list \<Rightarrow> YekLav list" where
  "store_get_batch s yeks =
     (let keyToYek = foldl (\<lambda>m singleYek. map_set m (stringify singleYek) singleYek) [] yeks
      in List.map_filter (\<lambda>(key, yek). map_option (\<lambda>lav. (yek, lav)) (contents s key)) keyToYek)"

definition store_remove :: "StorageArea \<Rightarrow> Yek list \<Rightarrow> StorageArea" where
  "store_remove s yeks = substrate_remove s (map stringify yeks)"

text \<open>\<^verbatim>\<open>lav?.lav.value ?? []\<close>, for a record that is absent or holds an array.\<close>

definition array_value :: "Lav option \<Rightarrow> Elem list" where
  "array_value lav =
     (case lav of
        None \<Rightarrow> []
      | Some l \<Rightarrow> (case lav_value l of ArrV xs \<Rightarrow> xs | _ \<Rightarrow> []))"

definition present_non_array :: "Lav option \<Rightarrow> bool" where
  "present_non_array lav = (case lav of None \<Rightarrow> False | Some l \<Rightarrow> \<not> isOfArrayKind l)"

text \<open>
  \<^verbatim>\<open>prepareAppend\<close>. Its overloads only admit array-valued \<^verbatim>\<open>appended_lav\<close>; for another
  shape the model answers \<^verbatim>\<open>IllTyped\<close>.
\<close>

definition prepareAppend :: "StorageArea \<Rightarrow> Yek \<Rightarrow> Lav \<Rightarrow> Error + YekLav" where
  "prepareAppend s yek appended_lav =
     (if yek_kind yek \<noteq> kind appended_lav
      then Inl (AppendMismatchedKinds (yek_kind yek) (kind appended_lav))
      else
        (let lav = store_get s yek in
         if present_non_array lav then Inl AppendNonArray
         else
           (case lav_value appended_lav of
              ArrV ys \<Rightarrow>
                Inr (yek, \<lparr>kind = yek_kind yek, lav_value = ArrV (array_value lav @ ys), auxiliary = None\<rparr>)
            | _ \<Rightarrow> Inl IllTyped)))"

text \<open>
  The two predicates handed to \<^verbatim>\<open>lodash.remove\<close>. An element without the field read by
  the predicate yields \<^verbatim>\<open>undefined\<close>, which \<^verbatim>\<open>indexOf\<close> never finds.
\<close>

fun matches_nid :: "Nid list \<Rightarrow> Elem \<Rightarrow> bool" where
  "matches_nid criteria (TagE t) = (tag_nid t \<in> set criteria)"
| "matches_nid criteria (NidE n) = (n \<in> set criteria)"
| "matches_nid criteria _ = False"

fun matches_edge :: "Nid list \<Rightarrow> Elem \<Rightarrow> bool" where
  "matches_edge criteria (EdgeE e) = (from_nid e \<in> set criteria \<or> to_nid e \<in> set criteria)"
| "matches_edge criteria _ = False"

definition removal_result :: "Kind \<Rightarrow> Nid list \<Rightarrow> Elem list \<Rightarrow> Elem list" where
  "removal_result k criteria xs =
     (if k = K_all_nids \<or> k = K_origin_to_nid then filter (\<lambda>x. \<not> matches_nid criteria x) xs
      else if k = K_nid_to_edge then filter (\<lambda>x. \<not> matches_edge criteria x) xs
      else xs)"

definition prepareRemoval :: "StorageArea \<Rightarrow> Yek \<Rightarrow> Nid list \<Rightarrow> Error + YekLav" where
  "prepareRemoval s yek criteria =
     (let lav = store_get s yek in
      if present_non_array lav then Inl RemovalNonArray
      else
        Inr (yek, \<lparr>kind = yek_kind yek,
                   lav_value = ArrV (removal_result (yek_kind yek) criteria (array_value lav)),
                   auxiliary = None\<rparr>))"

definition to_records :: "YekLav list \<Rightarrow> (string \<times> Lav) list" where
  "to_records items = map (\<lambda>(y, l). (stringify y, l)) items"

definition empty_store :: StorageArea where
  "empty_store = \<lparr>contents = (\<lambda>k. None), calls = []\<rparr>"

section \<open>Node repository\<close>

record NodeCreateArgs =
  arg_text :: NodeTextData
  arg_from_nid :: "Nid list option"
  arg_to_nid :: "Nid list option"
  arg_index_text :: "NodeIndexText option"
  arg_extattrs :: "NodeExtattrs option"
  arg_ntype :: "NodeType option"
  arg_origin :: "OriginId option"
  arg_created_via :: "NodeCreatedVia option"
  arg_created_at :: "int option"

definition orElse :: "'a option \<Rightarrow> 'a \<Rightarrow> 'a" where
  "orElse x d = (case x of None \<Rightarrow> d | Some v \<Rightarrow> v)"

text \<open>
  The node record built at the top of \<^verbatim>\<open>createNode\<close>; \<open>new_nid\<close> is the result of
  \<^verbatim>\<open>generateNid()\<close> and \<open>now\<close> that of \<^verbatim>\<open>unixtime.now()\<close>.
\<close>

definition new_node :: "Nid \<Rightarrow> int \<Rightarrow> NodeCreateArgs \<Rightarrow> TNodeJson" where
  "new_node new_nid now args =
     (let createdAt = orElse (arg_created_at args) now in
      \<lparr>nid = new_nid,
       ntype = orElse (arg_ntype args) Text,
       node_text = arg_text args,
       extattrs = arg_extattrs args,
       index_text = arg_index_text args,
       created_at = createdAt,
       updated_at = createdAt\<rparr>)"

definition arr_lav :: "Kind \<Rightarrow> Elem list \<Rightarrow> Lav" where
  "arr_lav k xs = \<lparr>kind = k, lav_value = ArrV xs, auxiliary = None\<rparr>"

text \<open>
  The edges of a new node. \<open>new_eid i\<close> is the result of the \<open>i\<close>-th call of
  \<^verbatim>\<open>generateEid()\<close>: the inbound edges are numbered first, then the outbound ones.
\<close>

definition new_from_edges :: "(nat \<Rightarrow> Eid) \<Rightarrow> TNodeJson \<Rightarrow> Nid list \<Rightarrow> TEdgeJson list" where
  "new_from_edges new_eid node from_nids =
     map (\<lambda>(i, n). \<lparr>eid = new_eid i, from_nid = n, to_nid = nid node,
                    crtd = created_at node, upd = created_at node, is_sticky = False\<rparr>)
         (enumerate 0 from_nids)"

definition new_to_edges :: "(nat \<Rightarrow> Eid) \<Rightarrow> TNodeJson \<Rightarrow> nat \<Rightarrow> Nid list \<Rightarrow> TEdgeJson list" where
  "new_to_edges new_eid node offset to_nids =
     map (\<lambda>(i, n). \<lparr>eid = new_eid i, from_nid = nid node, to_nid = n,
                    crtd = created_at node, upd = created_at node, is_sticky = False\<rparr>)
         (enumerate offset to_nids)"

definition origin_records :: "StorageArea \<Rightarrow> TNodeJson \<Rightarrow> NodeCreateArgs \<Rightarrow> Error + YekLav list" where
  "origin_records s node args =
     (case arg_origin args of
        None \<Rightarrow> Inr []
      | Some origin \<Rightarrow>
          bindE (prepareAppend s (OriginToNidYek origin) (arr_lav K_origin_to_nid [NidE (nid node)]))
                (\<lambda>r. Inr [r]))"

definition pipeline_records :: "StorageArea \<Rightarrow> TNodeJson \<Rightarrow> NodeCreateArgs \<Rightarrow> Error + YekLav list" where
  "pipeline_records s node args =
     (case arg_created_via args of
        Some (AutoIngestion epid) \<Rightarrow>
          bindE (prepareAppend s (ExtPipelineToNidYek epid) (arr_lav K_ext_pipe_id_to_nid [NidE (nid node)]))
                (\<lambda>r. Inr [r])
      | _ \<Rightarrow> Inr [])"

definition edge_records :: "StorageArea \<Rightarrow> (nat \<Rightarrow> Eid) \<Rightarrow> TNodeJson \<Rightarrow> NodeCreateArgs \<Rightarrow> Error + YekLav list" where
  "edge_records s new_eid node args =
     (let from_nids = orElse (arg_from_nid args) [];
          to_nids = orElse (arg_to_nid args) []
      in if length from_nids > 0 \<or> length to_nids > 0 then
           (let from_edges = new_from_edges new_eid node from_nids;
                to_edges = new_to_edges new_eid node (length from_nids) to_nids
            in bindE (mapE (\<lambda>edge. prepareAppend s (NidToEdgeYek (from_nid edge)) (arr_lav K_nid_to_edge [EdgeE edge]))
                           from_edges)
                 (\<lambda>from_records.
                    bindE (mapE (\<lambda>edge. prepareAppend s (NidToEdgeYek (to_nid edge)) (arr_lav K_nid_to_edge [EdgeE edge]))
                                to_edges)
                      (\<lambda>to_records.
                         Inr ((NidToEdgeYek (nid node), arr_lav K_nid_to_edge (map EdgeE (from_edges @ to_edges)))
                              # from_records @ to_records))))
         else Inr [])"

definition createNode_records :: "StorageArea \<Rightarrow> (nat \<Rightarrow> Eid) \<Rightarrow> TNodeJson \<Rightarrow> NodeCreateArgs \<Rightarrow> Error + YekLav list" where
  "createNode_records s new_eid node args =
     bindE (prepareAppend s AllNidsYek
              (arr_lav K_all_nids [TagE \<lparr>tag_nid = nid node, tag_created_at = created_at node\<rparr>]))
       (\<lambda>all_nids_record.
          bindE (origin_records s node args)
            (\<lambda>origin_rs.
               bindE (pipeline_records s node args)
                 (\<lambda>pipeline_rs.
                    bindE (edge_records s new_eid node args)
                      (\<lambda>edge_rs.
                         Inr ([all_nids_record,
                               (NidToNodeYek (nid node),
                                \<lparr>kind = K_nid_to_node, lav_value = NodeV node,
                                 auxiliary = Some \<lparr>aux_origin = arg_origin args,
                                                   aux_created_via = arg_created_via args\<rparr>\<rparr>)]
                              @ origin_rs @ pipeline_rs @ edge_rs)))))"

text \<open>
  \<^verbatim>\<open>createNode\<close>. The \<^verbatim>\<open>created\<close> notification sent after the write goes to listeners
  outside the storage and is not part of the model.
\<close>

definition createNode ::
  "Nid \<Rightarrow> (nat \<Rightarrow> Eid) \<Rightarrow> int \<Rightarrow> StorageArea \<Rightarrow> NodeCreateArgs \<Rightarrow> (Error + Nid) \<times> StorageArea" where
  "createNode new_nid new_eid now s args =
     (let node = new_node new_nid now args in
      case createNode_records s new_eid node args of
        Inl e \<Rightarrow> (Inl e, s)
      | Inr records \<Rightarrow>
          (case store_set s records of
             (Inl e, s') \<Rightarrow> (Inl e, s')
           | (Inr _, s') \<Rightarrow> (Inr (nid node), s')))"

text \<open>
  \<^verbatim>\<open>NodeUtil.fromJson\<close> is defined outside the sources at hand; the readers take it as
  the argument \<open>fromJson\<close>.
\<close>

definition node_of_lav :: "(TNodeJson \<Rightarrow> 'n) \<Rightarrow> Lav \<Rightarrow> Error + 'n" where
  "node_of_lav fromJson lav = (case lav_value lav of NodeV n \<Rightarrow> Inr (fromJson n) | _ \<Rightarrow> Inl IllTyped)"

definition getNode :: "(TNodeJson \<Rightarrow> 'n) \<Rightarrow> StorageArea \<Rightarrow> Nid \<Rightarrow> Error + 'n" where
  "getNode fromJson s n =
     (case store_get s (NidToNodeYek n) of
        None \<Rightarrow> Inl (NodeNotFound n)
      | Some lav \<Rightarrow> node_of_lav fromJson lav)"

definition getNodeBatch :: "(TNodeJson \<Rightarrow> 'n) \<Rightarrow> StorageArea \<Rightarrow> Nid list \<Rightarrow> Error + 'n list" where
  "getNodeBatch fromJson s nids =
     (let yeks = map NidToNodeYek nids;
          lavs = map snd (store_get_batch s yeks)
      in mapE (node_of_lav fromJson) lavs)"

text \<open>Reading a stored array through the static type \<^verbatim>\<open>TEdgeJson[]\<close>.\<close>

definition edge_of_elem :: "Elem \<Rightarrow> Error + TEdgeJson" where
  "edge_of_elem x = (case x of EdgeE e \<Rightarrow> Inr e | _ \<Rightarrow> Inl IllTyped)"

definition edges_of :: "Lav option \<Rightarrow> Error + TEdgeJson list" where
  "edges_of lav =
     (case lav of
        None \<Rightarrow> Inr []
      | Some l \<Rightarrow> (case lav_value l of ArrV xs \<Rightarrow> mapE edge_of_elem xs | _ \<Rightarrow> Inl IllTyped))"

definition linked_removals :: "StorageArea \<Rightarrow> Nid \<Rightarrow> Error + YekLav list" where
  "linked_removals s removedNid =
     bindE (edges_of (store_get s (NidToEdgeYek removedNid)))
       (\<lambda>edges.
          let linkedNids = map (\<lambda>edge. if from_nid edge = removedNid then to_nid edge else from_nid edge) edges
          in mapE (\<lambda>linkedNid. prepareRemoval s (NidToEdgeYek linkedNid) [removedNid]) linkedNids)"

definition node_origin :: "StorageArea \<Rightarrow> Nid \<Rightarrow> OriginId option" where
  "node_origin s n =
     (case store_get s (NidToNodeYek n) of
        None \<Rightarrow> None
      | Some lav \<Rightarrow> (case auxiliary lav of None \<Rightarrow> None | Some a \<Rightarrow> aux_origin a))"

definition origin_removal :: "StorageArea \<Rightarrow> Nid \<Rightarrow> Error + YekLav list" where
  "origin_removal s n =
     (case node_origin s n of
        None \<Rightarrow> Inr []
      | Some origin \<Rightarrow> bindE (prepareRemoval s (OriginToNidYek origin) [n]) (\<lambda>r. Inr [r]))"

definition prepareNodeRemoval :: "StorageArea \<Rightarrow> Nid list \<Rightarrow> Error + (Yek list \<times> YekLav list)" where
  "prepareNodeRemoval s nids =
     bindE (mapE (linked_removals s) nids)
       (\<lambda>linked.
          bindE (prepareRemoval s AllNidsYek nids)
            (\<lambda>all_nids_record.
               bindE (mapE (origin_removal s) nids)
                 (\<lambda>origins.
                    Inr (map NidToNodeYek nids @ map NidToEdgeYek nids
                           @ map NidToNodeSimilaritySearchInfoYek nids,
                         concat linked @ [all_nids_record] @ concat origins))))"

text \<open>\<^verbatim>\<open>deleteNode\<close>; the \<^verbatim>\<open>will-delete\<close> notification is outside the model.\<close>

definition deleteNode :: "StorageArea \<Rightarrow> Nid \<Rightarrow> (Error + unit) \<times> StorageArea" where
  "deleteNode s n =
     (case prepareNodeRemoval s [n] of
        Inl e \<Rightarrow> (Inl e, s)
      | Inr (toRemove, toSet) \<Rightarrow> store_set (store_remove s toRemove) toSet)"

definition tag_of_elem :: "Elem \<Rightarrow> Error + NodeTag" where
  "tag_of_elem x = (case x of TagE t \<Rightarrow> Inr t | _ \<Rightarrow> Inl IllTyped)"

text \<open>
  \<^verbatim>\<open>getAllNids\<close>. \<^verbatim>\<open>Array.prototype.sort\<close> is stable; with the comparator
  \<^verbatim>\<open>b.created_at - a.created_at\<close> it orders by descending \<^verbatim>\<open>created_at\<close>.
\<close>

definition getAllNids :: "StorageArea \<Rightarrow> Error + Nid list" where
  "getAllNids s =
     (case store_get s AllNidsYek of
        None \<Rightarrow> Inr []
      | Some lav \<Rightarrow>
          (case lav_value lav of
             ArrV xs \<Rightarrow>
               bindE (mapE tag_of_elem xs)
                 (\<lambda>tags. Inr (map tag_nid (sort_key (\<lambda>t. - tag_created_at t) tags)))
           | _ \<Rightarrow> Inl IllTyped))"

section \<open>Node iterator\<close>

record Iterator =
  it_nids :: "Nid list"
  it_index :: nat

definition Iterator_create :: "StorageArea \<Rightarrow> Error + Iterator" where
  "Iterator_create s = bindE (getAllNids s) (\<lambda>nids. Inr \<lparr>it_nids = nids, it_index = 0\<rparr>)"

definition Iterator_next ::
  "(TNodeJson \<Rightarrow> 'n) \<Rightarrow> StorageArea \<Rightarrow> Iterator \<Rightarrow> (Error + 'n option) \<times> Iterator" where
  "Iterator_next fromJson s it =
     (if it_index it \<ge> length (it_nids it) then (Inr None, it)
      else
        (let n = it_nids it ! it_index it in
         case store_get s (NidToNodeYek n) of
           None \<Rightarrow> (Inl (IteratorNodeNotFound n), it)
         | Some lav \<Rightarrow>
             (case node_of_lav fromJson lav of
                Inl e \<Rightarrow> (Inl e, it\<lparr>it_index := it_index it + 1\<rparr>)
              | Inr node \<Rightarrow> (Inr (Some node), it\<lparr>it_index := it_index it + 1\<rparr>))))"

definition Iterator_abort :: "Iterator \<Rightarrow> Iterator" where
  "Iterator_abort it = \<lparr>it_nids = [], it_index = 0\<rparr>"

section \<open>Edge repository\<close>

definition createEdge :: "Eid \<Rightarrow> int \<Rightarrow> StorageArea \<Rightarrow> Nid \<Rightarrow> Nid \<Rightarrow> (Error + TEdgeJson) \<times> StorageArea" where
  "createEdge new_eid now s from to =
     (let edge = \<lparr>eid = new_eid, from_nid = from, to_nid = to, crtd = now, upd = now, is_sticky = False\<rparr> in
      case bindE (prepareAppend s (NidToEdgeYek from) (arr_lav K_nid_to_edge [EdgeE edge]))
             (\<lambda>r1. bindE (prepareAppend s (NidToEdgeYek to) (arr_lav K_nid_to_edge [EdgeE edge]))
                      (\<lambda>r2. Inr [r1, r2])) of
        Inl e \<Rightarrow> (Inl e, s)
      | Inr items \<Rightarrow>
          (case store_set s items of
             (Inl e, s') \<Rightarrow> (Inl e, s')
           | (Inr _, s') \<Rightarrow> (Inr edge, s')))"

section \<open>Ingestion progress\<close>

record UserExternalPipelineIngestionProgress =
  epid :: UserExternalPipelineId
  ingested_until :: int

definition getUserIngestionProgress ::
  "StorageArea \<Rightarrow> UserExternalPipelineId \<Rightarrow> Error + UserExternalPipelineIngestionProgress" where
  "getUserIngestionProgress s e =
     (case store_get s (ExtPipelineYek e) of
        None \<Rightarrow> Inr \<lparr>epid = e, ingested_until = 0\<rparr>
      | Some lav \<Rightarrow>
          (case lav_value lav of
             ProgressV v \<Rightarrow> Inr \<lparr>epid = orElse (stored_epid v) e, ingested_until = stored_ingested_until v\<rparr>
           | _ \<Rightarrow> Inl IllTyped))"

definition advanceUserIngestionProgress ::
  "StorageArea \<Rightarrow> UserExternalPipelineId \<Rightarrow> int \<Rightarrow> (Error + unit) \<times> StorageArea" where
  "advanceUserIngestionProgress s e new_ingested_until =
     (case getUserIngestionProgress s e of
        Inl err \<Rightarrow> (Inl err, s)
      | Inr progress0 \<Rightarrow>
          (let progress = progress0\<lparr>ingested_until := new_ingested_until\<rparr> in
           store_set s
             [(ExtPipelineYek e,
               \<lparr>kind = K_ext_pipe_id_to_progress,
                lav_value = ProgressV \<lparr>stored_epid = Some (epid progress),
                                       stored_ingested_until = ingested_until progress\<rparr>,
                auxiliary = None\<rparr>)]))"

section \<open>Association manager\<close>

text \<open>
  \<^verbatim>\<open>value.every((assoc) => assoc.other.id !== h)\<close>: stops at the first entry that refers
  to \<open>h\<close>. An element without \<^verbatim>\<open>other\<close> makes the property access throw.
\<close>

fun every_other_differs :: "int \<Rightarrow> Elem list \<Rightarrow> Error + bool" where
  "every_other_differs h [] = Inr True"
| "every_other_differs h (AssocE a # xs) =
     (if origin_hash (other a) \<noteq> h then every_other_differs h xs else Inr False)"
| "every_other_differs h (_ # xs) = Inl IllTyped"

definition orEmpty :: "Lav option \<Rightarrow> Lav" where
  "orEmpty input = (case input of Some lav \<Rightarrow> lav | None \<Rightarrow> arr_lav K_origin_to_ext_assoc [])"

definition push_assoc :: "Lav \<Rightarrow> OriginToExtAssociationValue \<Rightarrow> Elem list \<Rightarrow> Lav" where
  "push_assoc lav a xs = lav\<lparr>lav_value := ArrV (xs @ [AssocE a])\<rparr>"

definition recordAssociation ::
  "StorageArea \<Rightarrow> OriginId \<Rightarrow> OriginId \<Rightarrow> UserExternalAssociationType \<Rightarrow> (Error + unit) \<times> StorageArea" where
  "recordAssociation s from to assoc =
     (let yek = OriginToExtAssociationYek from;
          reverseYek = OriginToExtAssociationYek to;
          lav = orEmpty (store_get s yek);
          rlav = orEmpty (store_get s reverseYek)
      in case lav_value lav of
           ArrV xs \<Rightarrow>
             (case every_other_differs (origin_hash to) xs of
                Inl e \<Rightarrow> (Inl e, s)
              | Inr False \<Rightarrow> (Inr (), s)
              | Inr True \<Rightarrow>
                  (case lav_value rlav of
                     ArrV rxs \<Rightarrow>
                       (case every_other_differs (origin_hash from) rxs of
                          Inl e \<Rightarrow> (Inl e, s)
                        | Inr False \<Rightarrow> (Inl (AssociationInconsistent (origin_hash from) (origin_hash to)), s)
                        | Inr True \<Rightarrow>
                            store_set s
                              [(yek, push_assoc lav \<lparr>direction = DirTo, other = to, association = assoc\<rparr> xs),
                               (reverseYek,
                                push_assoc rlav \<lparr>direction = DirFrom, other = from, association = assoc\<rparr> rxs)])
                   | _ \<Rightarrow> (Inl IllTyped, s)))
         | _ \<Rightarrow> (Inl IllTyped, s))"

record ExternalAssociationEnd =
  end_origin_hash :: int
  end_nids :: "Nid list"

record UserExternalAssociation =
  assoc_from :: ExternalAssociationEnd
  assoc_to :: ExternalAssociationEnd
  assoc_type :: UserExternalAssociationType

record GetUserExternalAssociationsResponse =
  resp_from :: "UserExternalAssociation list"
  resp_to :: "UserExternalAssociation list"

definition assoc_of_elem :: "Elem \<Rightarrow> Error + OriginToExtAssociationValue" where
  "assoc_of_elem x = (case x of AssocE a \<Rightarrow> Inr a | _ \<Rightarrow> Inl IllTyped)"

definition nid_of_elem :: "Elem \<Rightarrow> Error + Nid" where
  "nid_of_elem x = (case x of NidE n \<Rightarrow> Inr n | TagE t \<Rightarrow> Inr (tag_nid t) | _ \<Rightarrow> Inl IllTyped)"

definition nids_of_lav :: "Lav \<Rightarrow> Error + Nid list" where
  "nids_of_lav lav = (case lav_value lav of ArrV xs \<Rightarrow> mapE nid_of_elem xs | _ \<Rightarrow> Inl IllTyped)"

text \<open>The \<^verbatim>\<open>originToNids\<close> map of \<^verbatim>\<open>getAssociations\<close>, filled from the batch read.\<close>

fun fill_originToNids :: "(int \<Rightarrow> Nid list option) \<Rightarrow> YekLav list \<Rightarrow> Error + (int \<Rightarrow> Nid list option)" where
  "fill_originToNids m [] = Inr m"
| "fill_originToNids m ((OriginToNidYek k, lav) # rest) =
     bindE (nids_of_lav lav) (\<lambda>ns. fill_originToNids (m(origin_hash k \<mapsto> ns)) rest)"
| "fill_originToNids m (_ # rest) = Inl IllTyped"

definition makeAssociationEnd :: "(int \<Rightarrow> Nid list option) \<Rightarrow> int \<Rightarrow> ExternalAssociationEnd" where
  "makeAssociationEnd originToNids h = \<lparr>end_origin_hash = h, end_nids = orElse (originToNids h) []\<rparr>"

definition enrich_from ::
  "(int \<Rightarrow> Nid list option) \<Rightarrow> OriginId \<Rightarrow> OriginToExtAssociationValue \<Rightarrow> UserExternalAssociation" where
  "enrich_from m origin a =
     \<lparr>assoc_from = makeAssociationEnd m (origin_hash (other a)),
      assoc_to = makeAssociationEnd m (origin_hash origin),
      assoc_type = association a\<rparr>"

definition enrich_to ::
  "(int \<Rightarrow> Nid list option) \<Rightarrow> OriginId \<Rightarrow> OriginToExtAssociationValue \<Rightarrow> UserExternalAssociation" where
  "enrich_to m origin a =
     \<lparr>assoc_from = makeAssociationEnd m (origin_hash origin),
      assoc_to = makeAssociationEnd m (origin_hash (other a)),
      assoc_type = association a\<rparr>"

definition getAssociations :: "StorageArea \<Rightarrow> OriginId \<Rightarrow> Error + GetUserExternalAssociationsResponse" where
  "getAssociations s origin =
     (case (case store_get s (OriginToExtAssociationYek origin) of
              None \<Rightarrow> Inr []
            | Some lav \<Rightarrow> (case lav_value lav of ArrV xs \<Rightarrow> mapE assoc_of_elem xs | _ \<Rightarrow> Inl IllTyped)) of
        Inl e \<Rightarrow> Inl e
      | Inr assocs \<Rightarrow>
          if length assocs = 0 then Inr \<lparr>resp_from = [], resp_to = []\<rparr>
          else
            (let yeks = map (\<lambda>v. OriginToNidYek (other v)) assocs @ [OriginToNidYek origin] in
             bindE (fill_originToNids (\<lambda>h. None) (store_get_batch s yeks))
               (\<lambda>originToNids.
                  Inr \<lparr>resp_from = map (enrich_from originToNids origin)
                                       (filter (\<lambda>a. direction a = DirFrom) assocs),
                       resp_to = map (enrich_to originToNids origin)
                                     (filter (\<lambda>a. direction a = DirTo) assocs)\<rparr>)))"

section \<open>The static types of the store, as a predicate\<close>

text \<open>
  The overloads of \<^verbatim>\<open>YekLavStore.get\<close> promise that a key of some kind holds a value of
  the same kind, of the shape that kind's \<^verbatim>\<open>Lav\<close> type gives it. \<open>well_typed\<close> says that
  of a store; the operations below keep it.
\<close>

fun elem_ok :: "Kind \<Rightarrow> Elem \<Rightarrow> bool" where
  "elem_ok k (TagE _) = (k = K_all_nids)"
| "elem_ok k (NidE _) = (k = K_origin_to_nid \<or> k = K_ext_pipe_id_to_nid)"
| "elem_ok k (EdgeE _) = (k = K_nid_to_edge)"
| "elem_ok k (AssocE _) = (k = K_origin_to_ext_assoc)"

definition is_array_kind :: "Kind \<Rightarrow> bool" where
  "is_array_kind k =
     (k = K_all_nids \<or> k = K_origin_to_nid \<or> k = K_nid_to_edge \<or> k = K_ext_pipe_id_to_nid
      \<or> k = K_origin_to_ext_assoc)"

fun shape_ok :: "Kind \<Rightarrow> Value \<Rightarrow> bool" where
  "shape_ok k (ArrV xs) = (is_array_kind k \<and> list_all (elem_ok k) xs)"
| "shape_ok k (NodeV _) = (k = K_nid_to_node)"
| "shape_ok k (ProgressV _) = (k = K_ext_pipe_id_to_progress)"
| "shape_ok k (OpaqueV _) =
     (k = K_origin_to_activity \<or> k = K_nid_to_sim_search_node \<or> k = K_account_info)"

definition lav_ok :: "Yek \<Rightarrow> Lav \<Rightarrow> bool" where
  "lav_ok y lav = (kind lav = yek_kind y \<and> shape_ok (kind lav) (lav_value lav))"

definition well_typed :: "StorageArea \<Rightarrow> bool" where
  "well_typed s = (\<forall>y lav. store_get s y = Some lav \<longrightarrow> lav_ok y lav)"

section \<open>Auxiliary notions used in the statements\<close>

text \<open>The array stored under a key, with \<^verbatim>\<open>lav?.lav.value ?? []\<close> for a missing record.\<close>

definition stored_elems :: "StorageArea \<Rightarrow> Yek \<Rightarrow> Elem list" where
  "stored_elems s yek =
     (case store_get s yek of
        None \<Rightarrow> []
      | Some lav \<Rightarrow> (case lav_value lav of ArrV xs \<Rightarrow> xs | _ \<Rightarrow> []))"

text \<open>The neighbour ids handed to \<^verbatim>\<open>createNode\<close>, inbound first.\<close>

definition neighbours :: "NodeCreateArgs \<Rightarrow> Nid list" where
  "neighbours args = orElse (arg_from_nid args) [] @ orElse (arg_to_nid args) []"

text \<open>The keys of the batch that \<^verbatim>\<open>createNode\<close> hands to \<^verbatim>\<open>set\<close>, in order.\<close>

definition createNode_yeks :: "Nid \<Rightarrow> NodeCreateArgs \<Rightarrow> Yek list" where
  "createNode_yeks n args =
     [AllNidsYek, NidToNodeYek n]
     @ (case arg_origin args of None \<Rightarrow> [] | Some origin \<Rightarrow> [OriginToNidYek origin])
     @ (case arg_created_via args of Some (AutoIngestion e) \<Rightarrow> [ExtPipelineToNidYek e] | _ \<Rightarrow> [])
     @ (if neighbours args = [] then [] else NidToEdgeYek n # map NidToEdgeYek (neighbours args))"

definition node_lav :: "TNodeJson \<Rightarrow> NodeCreateArgs \<Rightarrow> Lav" where
  "node_lav node args =
     \<lparr>kind = K_nid_to_node, lav_value = NodeV node,
      auxiliary = Some \<lparr>aux_origin = arg_origin args, aux_created_via = arg_created_via args\<rparr>\<rparr>"

text \<open>The node record stored for an id, if there is one.\<close>

definition stored_node :: "StorageArea \<Rightarrow> Nid \<Rightarrow> TNodeJson option" where
  "stored_node s n =
     (case store_get s (NidToNodeYek n) of
        None \<Rightarrow> None
      | Some lav \<Rightarrow> (case lav_value lav of NodeV node \<Rightarrow> Some node | _ \<Rightarrow> None))"

text \<open>
  The distinct members of a list in the order of their first occurrence, which is the
  order in which a JavaScript \<^verbatim>\<open>Map\<close> keeps the keys put into it.
\<close>

fun first_occurrences :: "'a list \<Rightarrow> 'a list \<Rightarrow> 'a list" where
  "first_occurrences seen [] = seen"
| "first_occurrences seen (x # xs) = first_occurrences (if x \<in> set seen then seen else seen @ [x]) xs"

text \<open>The tags of the global listing.\<close>

definition listed_tags :: "StorageArea \<Rightarrow> NodeTag list" where
  "listed_tags s =
     List.map_filter (\<lambda>x. case x of TagE t \<Rightarrow> Some t | _ \<Rightarrow> None) (stored_elems s AllNidsYek)"

text \<open>
  A run of node creations, each with the id, the edge ids and the clock reading it
  draws; the run stops at the first creation that fails.
\<close>

type_synonym Creation = "Nid \<times> (nat \<Rightarrow> Eid) \<times> int \<times> NodeCreateArgs"

fun create_all :: "StorageArea \<Rightarrow> Creation list \<Rightarrow> (Error + Nid list) \<times> StorageArea" where
  "create_all s [] = (Inr [], s)"
| "create_all s ((n, e, now, args) # cs) =
     (case createNode n e now s args of
        (Inl err, s') \<Rightarrow> (Inl err, s')
      | (Inr n', s') \<Rightarrow>
          (case create_all s' cs of
             (Inl err, s'') \<Rightarrow> (Inl err, s'')
           | (Inr ns, s'') \<Rightarrow> (Inr (n' # ns), s'')))"

fun creation_tag :: "Creation \<Rightarrow> NodeTag" where
  "creation_tag (n, e, now, args) = \<lparr>tag_nid = n, tag_created_at = orElse (arg_created_at args) now\<rparr>"

text \<open>
  A run of \<^verbatim>\<open>advanceUserIngestionProgress\<close> calls for one pipeline, each followed by
  \<^verbatim>\<open>getUserIngestionProgress\<close>; the result lists the watermarks read back.
\<close>

fun advance_reads :: "StorageArea \<Rightarrow> UserExternalPipelineId \<Rightarrow> int list \<Rightarrow> Error + int list" where
  "advance_reads s e [] = Inr []"
| "advance_reads s e (w # ws) =
     (case advanceUserIngestionProgress s e w of
        (Inl err, s') \<Rightarrow> Inl err
      | (Inr u, s') \<Rightarrow>
          bindE (getUserIngestionProgress s' e)
            (\<lambda>p. bindE (advance_reads s' e ws) (\<lambda>rs. Inr (ingested_until p # rs))))"

text \<open>Whether an association bucket has an entry for the origin with hash \<open>h\<close>.\<close>

fun refers_to :: "int \<Rightarrow> Elem \<Rightarrow> bool" where
  "refers_to h (AssocE a) = (origin_hash (other a) = h)"
| "refers_to h _ = False"

definition references :: "int \<Rightarrow> Elem list \<Rightarrow> bool" where
  "references h xs = list_ex (refers_to h) xs"

text \<open>The association entries stored for an origin.\<close>

definition assoc_yek :: "OriginId \<Rightarrow> Yek" where
  "assoc_yek origin = OriginToExtAssociationYek origin"

definition stored_assocs :: "StorageArea \<Rightarrow> OriginId \<Rightarrow> OriginToExtAssociationValue list" where
  "stored_assocs s origin =
     List.map_filter (\<lambda>x. case x of AssocE a \<Rightarrow> Some a | _ \<Rightarrow> None) (stored_elems s (assoc_yek origin))"

text \<open>The adjacency bucket of a node, and the neighbours it names.\<close>

definition stored_edges :: "StorageArea \<Rightarrow> Nid \<Rightarrow> TEdgeJson list" where
  "stored_edges s n =
     List.map_filter (\<lambda>x. case x of EdgeE e \<Rightarrow> Some e | _ \<Rightarrow> None) (stored_elems s (NidToEdgeYek n))"

definition linked_nids :: "StorageArea \<Rightarrow> Nid \<Rightarrow> Nid list" where
  "linked_nids s removedNid =
     map (\<lambda>edge. if from_nid edge = removedNid then to_nid edge else from_nid edge)
         (stored_edges s removedNid)"

text \<open>What \<^verbatim>\<open>prepareRemoval\<close> proposes for an array stored under a key.\<close>

definition removal_item :: "StorageArea \<Rightarrow> Yek \<Rightarrow> Nid list \<Rightarrow> YekLav" where
  "removal_item s yek criteria =
     (yek, arr_lav (yek_kind yek) (removal_result (yek_kind yek) criteria (stored_elems s yek)))"

definition removal_batch :: "StorageArea \<Rightarrow> Nid \<Rightarrow> YekLav list" where
  "removal_batch s n =
     map (\<lambda>linkedNid. removal_item s (NidToEdgeYek linkedNid) [n]) (linked_nids s n)
     @ [removal_item s AllNidsYek [n]]
     @ (case node_origin s n of None \<Rightarrow> [] | Some origin \<Rightarrow> [removal_item s (OriginToNidYek origin) [n]])"

section \<open>Example inputs\<close>

definition args_plain :: NodeCreateArgs where
  "args_plain =
     \<lparr>arg_text = ''hello'', arg_from_nid = None, arg_to_nid = None, arg_index_text = None,
      arg_extattrs = None, arg_ntype = None, arg_origin = None, arg_created_via = None,
      arg_created_at = None\<rparr>"

definition args_linked :: "Nid list \<Rightarrow> Nid list \<Rightarrow> NodeCreateArgs" where
  "args_linked froms tos = args_plain\<lparr>arg_from_nid := Some froms, arg_to_nid := Some tos\<rparr>"

definition eid_numbered :: "nat \<Rightarrow> Eid" where
  "eid_numbered i = CHR ''e'' # nat_toString i"

definition store_one :: StorageArea where
  "store_one = snd (createNode ''n1'' eid_numbered 7 empty_store args_plain)"

definition three_creations :: "Creation list" where
  "three_creations =
     [(''a'', eid_numbered, 5, args_plain),
      (''b'', eid_numbered, 9, args_plain),
      (''c'', eid_numbered, 1, args_plain\<lparr>arg_created_at := Some 7\<rparr>)]"

definition store_three :: StorageArea where
  "store_three = snd (create_all empty_store three_creations)"

definition origin_a :: OriginId where
  "origin_a = OriginId 1"

definition origin_b :: OriginId where
  "origin_b = OriginId 2"

text \<open>A store in which only the bucket of \<open>origin_a\<close> holds the association with \<open>origin_b\<close>.\<close>

definition one_sided_store :: StorageArea where
  "one_sided_store =
     snd (store_set empty_store
            [(assoc_yek origin_a,
              arr_lav K_origin_to_ext_assoc
                [AssocE \<lparr>direction = DirTo, other = origin_b, association = ''t''\<rparr>])])"

text \<open>A store in which only the bucket of \<open>origin_b\<close> holds the mirror entry.\<close>

definition mirror_only_store :: StorageArea where
  "mirror_only_store =
     snd (store_set empty_store
            [(assoc_yek origin_b,
              arr_lav K_origin_to_ext_assoc
                [AssocE \<lparr>direction = DirFrom, other = origin_a, association = ''t''\<rparr>])])"

text \<open>Node \<open>n1\<close>, then node \<open>n2\<close> created with the edge from \<open>n1\<close> to \<open>n2\<close>.\<close>

definition store_linked :: StorageArea where
  "store_linked = snd (createNode ''n2'' eid_numbered 8 store_one (args_linked [''n1''] []))"

definition edge_n1_n2 :: TEdgeJson where
  "edge_n1_n2 = \<lparr>eid = eid_numbered 0, from_nid = ''n1'', to_nid = ''n2'', crtd = 8, upd = 8, is_sticky = False\<rparr>"

definition store_deleted :: StorageArea where
  "store_deleted = snd (deleteNode store_linked ''n1'')"

definition store_one_deleted :: StorageArea where
  "store_one_deleted = snd (deleteNode store_one ''n1'')"

definition iterator_one :: "nat \<Rightarrow> Iterator" where
  "iterator_one i = \<lparr>it_nids = [''n1''], it_index = i\<rparr>"

text \<open>
  The two nodes of \<open>store_linked\<close> with a second edge between them, from \<open>n2\<close> to \<open>n1\<close>;
  then \<^verbatim>\<open>deleteNode\<close> of \<open>n1\<close>, twice.
\<close>

definition edge_n2_n1 :: TEdgeJson where
  "edge_n2_n1 = \<lparr>eid = ''e9'', from_nid = ''n2'', to_nid = ''n1'', crtd = 9, upd = 9, is_sticky = False\<rparr>"

definition store_double :: StorageArea where
  "store_double = snd (createEdge ''e9'' 9 store_linked ''n2'' ''n1'')"

definition store_half_deleted :: StorageArea where
  "store_half_deleted = snd (deleteNode store_double ''n1'')"

definition store_retried :: StorageArea where
  "store_retried = snd (deleteNode store_half_deleted ''n1'')"

text \<open>The association from \<open>origin_b\<close> to \<open>origin_a\<close>, recorded on the empty store.\<close>

definition store_reverse :: StorageArea where
  "store_reverse = snd (recordAssociation empty_store origin_b origin_a ''t'')"

section \<open>Properties of the record store\<close>


lemma first_mismatch_None:
  "first_mismatch items = None \<longleftrightarrow> (\<forall>(y, l) \<in> set items. yek_kind y = kind l)"
  by (induction items rule: first_mismatch.induct) auto

lemma first_mismatch_Some:
  "first_mismatch items = Some (k1, k2) \<Longrightarrow> \<exists>(y, l) \<in> set items. yek_kind y \<noteq> kind l"
  by (induction items rule: first_mismatch.induct) (auto split: if_splits)

lemma map_fst_to_records: "map fst (to_records items) = map (stringify \<circ> fst) items"
  by (induction items) (auto simp: to_records_def)

lemma collect_records_distinct:
  "distinct (map fst records @ map (stringify \<circ> fst) items) \<Longrightarrow>
   collect_records records items = Inr (records @ to_records items)"
proof (induction records items rule: collect_records.induct)
  case (1 records)
  then show ?case by (simp add: to_records_def)
next
  case (2 records yek lav items)
  then show ?case by (simp add: to_records_def Let_def)
qed

lemma collect_records_duplicate:
  "\<not> distinct (map fst records @ map (stringify \<circ> fst) items) \<Longrightarrow> distinct (map fst records) \<Longrightarrow>
   \<exists>key. collect_records records items = Inl (SetDuplicateKey key)"
proof (induction records items rule: collect_records.induct)
  case (1 records)
  then show ?case by simp
next
  case (2 records yek lav items)
  show ?case
  proof (cases "stringify yek \<in> set (map fst records)")
    case True
    then show ?thesis by (simp add: Let_def)
  next
    case False
    with 2 show ?thesis by (auto simp: Let_def)
  qed
qed

lemma store_set_ok:
  "\<forall>(y, l) \<in> set items. yek_kind y = kind l \<Longrightarrow> distinct (map (stringify \<circ> fst) items) \<Longrightarrow>
   store_set s items = (Inr (), substrate_set s (to_records items))"
  using collect_records_distinct [of "[]" items]
  by (simp add: store_set_def first_mismatch_None [THEN iffD2])

lemma store_set_mismatch:
  "\<exists>(y, l) \<in> set items. yek_kind y \<noteq> kind l \<Longrightarrow>
   \<exists>k1 k2. store_set s items = (Inl (SetMismatchedKinds k1 k2), s)"
proof -
  assume "\<exists>(y, l) \<in> set items. yek_kind y \<noteq> kind l"
  then have "first_mismatch items \<noteq> None"
    by (auto simp: first_mismatch_None)
  then show ?thesis
    by (auto simp: store_set_def)
qed

lemma store_set_duplicate:
  "\<forall>(y, l) \<in> set items. yek_kind y = kind l \<Longrightarrow> \<not> distinct (map (stringify \<circ> fst) items) \<Longrightarrow>
   \<exists>key. store_set s items = (Inl (SetDuplicateKey key), s)"
  using collect_records_duplicate [of "[]" items]
  by (auto simp: store_set_def first_mismatch_None [THEN iffD2])

lemma store_set_error_unchanged: "store_set s items = (Inl e, s') \<Longrightarrow> s' = s"
  by (auto simp: store_set_def split: option.splits sum.splits)

text \<open>
  C6. \<^verbatim>\<open>YekLavStore.set\<close>: a batch in which some pair has differing kind tags, or in
  which two entries stringify to the same substrate key, is rejected with an error and
  the substrate is left as it was (no call reaches it). Any other batch reaches the
  substrate as exactly one bulk \<^verbatim>\<open>set\<close> carrying every entry of the batch.
\<close>

theorem store_set_rejects_or_writes_once:
  "((\<exists>(y, l) \<in> set items. yek_kind y \<noteq> kind l) \<or> \<not> distinct (map (stringify \<circ> fst) items)
      \<longrightarrow> (\<exists>e. store_set s items = (Inl e, s)))
   \<and> (\<not> ((\<exists>(y, l) \<in> set items. yek_kind y \<noteq> kind l) \<or> \<not> distinct (map (stringify \<circ> fst) items))
      \<longrightarrow> store_set s items = (Inr (), substrate_set s (to_records items))
          \<and> calls (snd (store_set s items)) = calls s @ [StoreSet (to_records items)])"
proof (intro conjI impI)
  assume bad: "(\<exists>(y, l) \<in> set items. yek_kind y \<noteq> kind l) \<or> \<not> distinct (map (stringify \<circ> fst) items)"
  show "\<exists>e. store_set s items = (Inl e, s)"
  proof (cases "\<exists>(y, l) \<in> set items. yek_kind y \<noteq> kind l")
    case True
    then show ?thesis using store_set_mismatch [of items s] by blast
  next
    case False
    with bad have "\<not> distinct (map (stringify \<circ> fst) items)" by blast
    moreover from False have "\<forall>(y, l) \<in> set items. yek_kind y = kind l" by blast
    ultimately show ?thesis using store_set_duplicate [of items s] by blast
  qed
next
  assume good: "\<not> ((\<exists>(y, l) \<in> set items. yek_kind y \<noteq> kind l) \<or> \<not> distinct (map (stringify \<circ> fst) items))"
  then have k: "\<forall>(y, l) \<in> set items. yek_kind y = kind l" and d: "distinct (map (stringify \<circ> fst) items)"
    by blast+
  show "store_set s items = (Inr (), substrate_set s (to_records items))"
    by (rule store_set_ok [OF k d])
  then show "calls (snd (store_set s items)) = calls s @ [StoreSet (to_records items)]"
    by (simp add: substrate_set_def)
qed

theorem store_set_rejects_or_writes_once_witness:
  "(\<exists>e. store_set empty_store
          [(AllNidsYek, \<lparr>kind = K_all_nids, lav_value = ArrV [], auxiliary = None\<rparr>),
           (AllNidsYek, \<lparr>kind = K_all_nids, lav_value = ArrV [NidE ''a''], auxiliary = None\<rparr>)]
        = (Inl e, empty_store))
   \<and> calls (snd (store_set empty_store
          [(AllNidsYek, \<lparr>kind = K_all_nids, lav_value = ArrV [], auxiliary = None\<rparr>),
           (NidToEdgeYek ''a'', \<lparr>kind = K_nid_to_edge, lav_value = ArrV [], auxiliary = None\<rparr>)]))
     = [StoreSet [(''all-nids'', \<lparr>kind = K_all_nids, lav_value = ArrV [], auxiliary = None\<rparr>),
                  (''nid->edge:a'', \<lparr>kind = K_nid_to_edge, lav_value = ArrV [], auxiliary = None\<rparr>)]]"
  using store_set_rejects_or_writes_once
          [of "[(AllNidsYek, \<lparr>kind = K_all_nids, lav_value = ArrV [], auxiliary = None\<rparr>),
                (AllNidsYek, \<lparr>kind = K_all_nids, lav_value = ArrV [NidE ''a''], auxiliary = None\<rparr>)]" empty_store]
        store_set_rejects_or_writes_once
          [of "[(AllNidsYek, \<lparr>kind = K_all_nids, lav_value = ArrV [], auxiliary = None\<rparr>),
                (NidToEdgeYek ''a'', \<lparr>kind = K_nid_to_edge, lav_value = ArrV [], auxiliary = None\<rparr>)]" empty_store]
  by (simp add: to_records_def empty_store_def substrate_set_def)

section \<open>Results and their sequencing\<close>

lemma bindE_Inr [simp]: "bindE (Inr x) f = f x"
  by (simp add: bindE_def)

lemma bindE_Inl [simp]: "bindE (Inl e) f = Inl e"
  by (simp add: bindE_def)

lemma bindE_eq_Inr: "bindE m f = Inr y \<longleftrightarrow> (\<exists>x. m = Inr x \<and> f x = Inr y)"
  by (cases m) simp_all

lemma mapE_eq_Inr: "mapE f xs = Inr ys \<longleftrightarrow> list_all2 (\<lambda>x y. f x = Inr y) xs ys"
proof (induction xs arbitrary: ys)
  case Nil
  then show ?case by auto
next
  case (Cons x xs)
  show ?case
    by (cases ys) (auto simp: bindE_eq_Inr Cons.IH)
qed

lemma mapE_total: "(\<And>x. x \<in> set xs \<Longrightarrow> \<exists>y. f x = Inr y) \<Longrightarrow> \<exists>ys. mapE f xs = Inr ys"
proof (induction xs)
  case Nil
  then show ?case by simp
next
  case (Cons x xs)
  then obtain y ys where "f x = Inr y" "mapE f xs = Inr ys"
    by (metis list.set_intros(1,2))
  then show ?case by simp
qed

lemma mapE_Inr_map: "(\<And>x. x \<in> set xs \<Longrightarrow> f x = Inr (g x)) \<Longrightarrow> mapE f xs = Inr (map g xs)"
  by (induction xs) simp_all

section \<open>Properties of the key codec\<close>

declare nat_toString.simps [simp del]

lemma digit_char_inj: "d < 10 \<Longrightarrow> d' < 10 \<Longrightarrow> digit_char d = digit_char d' \<Longrightarrow> d = d'"
proof -
  assume a: "d < 10" "d' < 10" "digit_char d = digit_char d'"
  have dist: "distinct ''0123456789''" by simp
  have len: "length ''0123456789'' = 10" by simp
  from a show ?thesis
    unfolding digit_char_def
    using nth_eq_iff_index_eq [OF dist, of d d'] len by simp
qed

lemma digit_char_in: "d < 10 \<Longrightarrow> digit_char d \<in> set ''0123456789''"
  unfolding digit_char_def using nth_mem [of d "''0123456789''"] by simp

lemma nat_toString_nonempty: "nat_toString n \<noteq> []"
  by (subst nat_toString.simps) simp

lemma nat_toString_digits: "set (nat_toString n) \<subseteq> set ''0123456789''"
proof (induction n rule: nat_toString.induct)
  case (1 n)
  show ?case
  proof (cases "n < 10")
    case True
    then show ?thesis using digit_char_in [of n] by (subst nat_toString.simps) simp
  next
    case False
    then have "set (nat_toString (n div 10)) \<subseteq> set ''0123456789''" using 1 by simp
    moreover have "digit_char (n mod 10) \<in> set ''0123456789''" by (rule digit_char_in) simp
    ultimately show ?thesis using False by (subst nat_toString.simps) simp
  qed
qed

lemma nat_toString_inj: "nat_toString m = nat_toString n \<Longrightarrow> m = n"
proof (induction m arbitrary: n rule: nat_toString.induct)
  case (1 m)
  show ?case
  proof (cases "m < 10")
    case m: True
    show ?thesis
    proof (cases "n < 10")
      case True
      with m 1(2) show ?thesis
        by (simp add: nat_toString.simps [of m] nat_toString.simps [of n] digit_char_inj)
    next
      case False
      with m 1(2) nat_toString_nonempty [of "n div 10"] show ?thesis
        by (simp add: nat_toString.simps [of m] nat_toString.simps [of n])
    qed
  next
    case m: False
    show ?thesis
    proof (cases "n < 10")
      case True
      with m 1(2) nat_toString_nonempty [of "m div 10"] show ?thesis
        by (simp add: nat_toString.simps [of m] nat_toString.simps [of n])
    next
      case False
      with m 1(2) have e: "nat_toString (m div 10) = nat_toString (n div 10)"
        and d: "digit_char (m mod 10) = digit_char (n mod 10)"
        by (simp_all add: nat_toString.simps [of m] nat_toString.simps [of n])
      from 1(1) [OF m e] have "m div 10 = n div 10" .
      moreover from d have "m mod 10 = n mod 10" by (intro digit_char_inj) simp_all
      ultimately show ?thesis by (metis div_mult_mod_eq)
    qed
  qed
qed

lemma nat_toString_no_minus: "nat_toString n \<noteq> CHR ''-'' # xs"
proof
  assume "nat_toString n = CHR ''-'' # xs"
  then have "CHR ''-'' \<in> set (nat_toString n)" by simp
  with nat_toString_digits [of n] show False by auto
qed

lemma number_toString_inj: "number_toString i = number_toString j \<Longrightarrow> i = j"
  using nat_toString_inj [of "nat (- i)" "nat (- j)"] nat_toString_inj [of "nat i" "nat j"]
        nat_toString_no_minus [of "nat i"] nat_toString_no_minus [of "nat j"]
  by (auto simp: number_toString_def split: if_splits) metis+

text \<open>Keys of different kinds never collide, and a kind's keys are told apart by their payload.\<close>

lemma stringify_kind: "stringify y = stringify y' \<Longrightarrow> yek_kind y = yek_kind y'"
  by (cases y; cases y'; simp)

lemma stringify_inj: "stringify y = stringify y' \<Longrightarrow> y = y'"
  by (cases y; cases y'; simp add: number_toString_inj OriginId.expand UserExternalPipelineId.expand)

lemma stringify_eq_iff [simp]: "stringify y = stringify y' \<longleftrightarrow> y = y'"
  using stringify_inj by blast

section \<open>Reading back what a bulk write stored\<close>

lemma put_record_pair [simp]: "put_record m (k, v) = m(k \<mapsto> v)"
  by (simp add: put_record_def)

lemma foldl_upd_notin:
  "k \<notin> fst ` set records \<Longrightarrow> foldl put_record m records k = m k"
  by (induction records arbitrary: m) auto

lemma foldl_upd_in:
  "distinct (map fst records) \<Longrightarrow> (k, v) \<in> set records \<Longrightarrow>
   foldl put_record m records k = Some v"
proof (induction records arbitrary: m)
  case Nil
  then show ?case by simp
next
  case (Cons r records)
  obtain k' v' where r: "r = (k', v')" by (cases r)
  show ?case
  proof (cases "(k, v) = r")
    case True
    with Cons.prems r have "k \<notin> fst ` set records" by auto
    then show ?thesis using True r by (simp add: foldl_upd_notin)
  next
    case False
    with Cons show ?thesis by auto
  qed
qed

lemma foldl_upd_cases:
  "foldl put_record m records k = Some v \<Longrightarrow> (k, v) \<in> set records \<or> m k = Some v"
proof (induction records arbitrary: m)
  case Nil
  then show ?case by simp
next
  case (Cons r records)
  obtain k' v' where r: "r = (k', v')" by (cases r)
  from Cons.prems r have "foldl put_record (m(k' \<mapsto> v')) records k = Some v"
    by simp
  from Cons.IH [OF this] show ?case using r by (auto split: if_splits)
qed

lemma store_set_Inr:
  "store_set s items = (Inr u, s') \<longleftrightarrow>
     ((\<forall>(y, l) \<in> set items. yek_kind y = kind l) \<and> distinct (map fst items)
      \<and> s' = substrate_set s (to_records items))"
proof (cases "(\<forall>(y, l) \<in> set items. yek_kind y = kind l) \<and> distinct (map (stringify \<circ> fst) items)")
  case True
  then have "store_set s items = (Inr (), substrate_set s (to_records items))"
    using store_set_ok by blast
  moreover have "distinct (map fst items) \<longleftrightarrow> distinct (map (stringify \<circ> fst) items)"
    by (simp add: distinct_map inj_on_def flip: map_map)
  ultimately show ?thesis using True by auto
next
  case False
  then have "\<exists>e. store_set s items = (Inl e, s)"
    using store_set_mismatch [of items s] store_set_duplicate [of items s] by blast
  moreover have "distinct (map fst items) \<longleftrightarrow> distinct (map (stringify \<circ> fst) items)"
    by (simp add: distinct_map inj_on_def flip: map_map)
  ultimately show ?thesis using False by auto
qed

lemma store_get_after_set_in:
  assumes "store_set s items = (Inr u, s')" and "(y, l) \<in> set items"
  shows "store_get s' y = Some l"
proof -
  from assms(1) have d: "distinct (map fst items)" and s': "s' = substrate_set s (to_records items)"
    by (simp_all add: store_set_Inr)
  have "distinct (map fst (to_records items))"
    using d by (simp add: map_fst_to_records distinct_map inj_on_def flip: map_map)
  moreover have "(stringify y, l) \<in> set (to_records items)"
    using assms(2) by (force simp: to_records_def)
  ultimately show ?thesis
    by (simp add: s' store_get_def substrate_set_def foldl_upd_in)
qed

lemma store_get_after_set_notin:
  assumes "store_set s items = (Inr u, s')" and "y \<notin> fst ` set items"
  shows "store_get s' y = store_get s y"
proof -
  from assms(1) have s': "s' = substrate_set s (to_records items)"
    by (simp add: store_set_Inr)
  have "stringify y \<notin> fst ` set (to_records items)"
    using assms(2) by (force simp: to_records_def)
  then show ?thesis
    by (simp add: s' store_get_def substrate_set_def foldl_upd_notin)
qed

lemma store_get_after_remove:
  "store_get (store_remove s yeks) y = (if y \<in> set yeks then None else store_get s y)"
  by (auto simp: store_get_def store_remove_def substrate_remove_def)

section \<open>The static types are kept by every write\<close>

lemma well_typed_empty: "well_typed empty_store"
  by (simp add: well_typed_def store_get_def empty_store_def)

lemma well_typed_remove: "well_typed s \<Longrightarrow> well_typed (store_remove s yeks)"
  by (simp add: well_typed_def store_get_after_remove)

lemma well_typed_set:
  assumes "well_typed s" and "store_set s items = (r, s')" and "\<forall>(y, l) \<in> set items. lav_ok y l"
  shows "well_typed s'"
proof (cases r)
  case (Inl e)
  with assms(2) have "s' = s" using store_set_error_unchanged by blast
  with assms(1) show ?thesis by simp
next
  case (Inr u)
  with assms(2) have s': "s' = substrate_set s (to_records items)"
    by (simp add: store_set_Inr)
  show ?thesis
    unfolding well_typed_def
  proof (intro allI impI)
    fix y lav
    assume "store_get s' y = Some lav"
    then have "(stringify y, lav) \<in> set (to_records items) \<or> contents s (stringify y) = Some lav"
      using foldl_upd_cases by (fastforce simp: s' store_get_def substrate_set_def)
    then show "lav_ok y lav"
    proof
      assume "(stringify y, lav) \<in> set (to_records items)"
      then have "(y, lav) \<in> set items" by (auto simp: to_records_def)
      with assms(3) show ?thesis by auto
    next
      assume "contents s (stringify y) = Some lav"
      with assms(1) show ?thesis by (simp add: well_typed_def store_get_def)
    qed
  qed
qed

lemma prepareAppend_Inr:
  "prepareAppend s yek (arr_lav k ys) = Inr r \<Longrightarrow>
   r = (yek, arr_lav (yek_kind yek) (stored_elems s yek @ ys))"
  by (auto simp: prepareAppend_def stored_elems_def array_value_def arr_lav_def Let_def
           split: if_splits option.splits Value.splits)

lemma lav_ok_arr:
  "lav_ok yek (arr_lav k ys) \<longleftrightarrow> (yek_kind yek = k \<and> is_array_kind k \<and> list_all (elem_ok k) ys)"
  by (auto simp: lav_ok_def arr_lav_def)

lemma prepareAppend_well_typed:
  assumes "well_typed s" and "lav_ok yek (arr_lav k ys)"
  shows "prepareAppend s yek (arr_lav k ys) =
           Inr (yek, arr_lav k (stored_elems s yek @ ys))
         \<and> lav_ok yek (arr_lav k (stored_elems s yek @ ys))"
proof (cases "store_get s yek")
  case None
  from assms(2) have k: "yek_kind yek = k" "is_array_kind k" "list_all (elem_ok k) ys"
    by (simp_all add: lav_ok_arr)
  with None show ?thesis
    by (simp add: prepareAppend_def lav_ok_arr stored_elems_def array_value_def present_non_array_def isOfArrayKind_def Let_def) (simp add: arr_lav_def array_value_def)
next
  case (Some lav)
  with assms(1) have ok: "lav_ok yek lav" by (simp add: well_typed_def)
  from assms(2) have k: "yek_kind yek = k" "is_array_kind k" "list_all (elem_ok k) ys"
    by (simp_all add: lav_ok_arr)
  from ok k obtain xs where xs: "lav_value lav = ArrV xs" "list_all (elem_ok k) xs"
    by (cases "lav_value lav") (auto simp: lav_ok_def is_array_kind_def)
  with Some k show ?thesis
    by (simp add: prepareAppend_def lav_ok_arr stored_elems_def array_value_def present_non_array_def isOfArrayKind_def Let_def) (simp add: arr_lav_def array_value_def)
qed

lemma prepareRemoval_Inr:
  "prepareRemoval s yek criteria = Inr r \<Longrightarrow>
   r = (yek, arr_lav (yek_kind yek) (removal_result (yek_kind yek) criteria (stored_elems s yek)))"
  by (auto simp: prepareRemoval_def stored_elems_def array_value_def arr_lav_def Let_def
           split: if_splits option.splits Value.splits)

lemma removal_result_ok: "list_all (elem_ok k) xs \<Longrightarrow> list_all (elem_ok k) (removal_result k c xs)"
  by (auto simp: removal_result_def list_all_iff)

lemma prepareRemoval_well_typed:
  assumes "well_typed s" and "is_array_kind (yek_kind yek)"
  shows "prepareRemoval s yek criteria =
           Inr (yek, arr_lav (yek_kind yek)
                  (removal_result (yek_kind yek) criteria
                     (stored_elems s yek)))
         \<and> lav_ok yek (arr_lav (yek_kind yek)
                  (removal_result (yek_kind yek) criteria
                     (stored_elems s yek)))"
proof (cases "store_get s yek")
  case None
  with assms(2) show ?thesis
    by (simp add: prepareRemoval_def lav_ok_arr removal_result_def stored_elems_def array_value_def present_non_array_def isOfArrayKind_def Let_def) (simp add: arr_lav_def array_value_def)
next
  case (Some lav)
  with assms(1) have ok: "lav_ok yek lav" by (simp add: well_typed_def)
  with assms(2) obtain xs where xs: "lav_value lav = ArrV xs" "list_all (elem_ok (yek_kind yek)) xs"
    by (cases "lav_value lav") (auto simp: lav_ok_def is_array_kind_def)
  with Some assms(2) removal_result_ok [OF xs(2), of criteria] show ?thesis
    by (simp add: prepareRemoval_def lav_ok_arr stored_elems_def array_value_def present_non_array_def isOfArrayKind_def Let_def) (simp add: arr_lav_def array_value_def)
qed


section \<open>The batch of \<^verbatim>\<open>createNode\<close>\<close>

lemma map_from_nid_new_from_edges: "map from_nid (new_from_edges e node ns) = ns"
  by (simp add: new_from_edges_def map_snd_enumerate comp_def case_prod_unfold)

lemma map_to_nid_new_to_edges: "map to_nid (new_to_edges e node k ns) = ns"
  by (simp add: new_to_edges_def map_snd_enumerate comp_def case_prod_unfold)

lemma mapE_prepareAppend_fst:
  assumes "mapE (\<lambda>x. prepareAppend s (key x) (arr_lav K_nid_to_edge [EdgeE x])) xs = Inr rs"
  shows "map fst rs = map key xs \<and> (\<forall>(y, l) \<in> set rs. yek_kind y = kind l)"
  using assms
proof (induction xs arbitrary: rs)
  case Nil
  then show ?case by simp
next
  case (Cons x xs)
  from Cons.prems obtain r rs' where r: "prepareAppend s (key x) (arr_lav K_nid_to_edge [EdgeE x]) = Inr r"
    and rs': "mapE (\<lambda>x. prepareAppend s (key x) (arr_lav K_nid_to_edge [EdgeE x])) xs = Inr rs'"
    and rs: "rs = r # rs'"
    by (auto simp: bindE_eq_Inr)
  from prepareAppend_Inr [OF r] have "fst r = key x" "yek_kind (fst r) = kind (snd r)"
    by (simp_all add: arr_lav_def)
  with Cons.IH [OF rs'] rs show ?case by (auto simp: case_prod_unfold)
qed

lemma origin_records_Inr:
  assumes "origin_records s node args = Inr rs"
  shows "map fst rs = (case arg_origin args of None \<Rightarrow> [] | Some origin \<Rightarrow> [OriginToNidYek origin])
         \<and> (\<forall>(y, l) \<in> set rs. yek_kind y = kind l)"
proof (cases "arg_origin args")
  case None
  with assms show ?thesis by (simp add: origin_records_def)
next
  case (Some origin)
  with assms obtain r where r: "prepareAppend s (OriginToNidYek origin) (arr_lav K_origin_to_nid [NidE (nid node)]) = Inr r"
    and rs: "rs = [r]"
    by (auto simp: origin_records_def bindE_eq_Inr)
  from prepareAppend_Inr [OF r] rs Some show ?thesis by (simp add: arr_lav_def)
qed

lemma pipeline_records_Inr:
  assumes "pipeline_records s node args = Inr rs"
  shows "map fst rs = (case arg_created_via args of Some (AutoIngestion e) \<Rightarrow> [ExtPipelineToNidYek e] | _ \<Rightarrow> [])
         \<and> (\<forall>(y, l) \<in> set rs. yek_kind y = kind l)"
proof (cases "arg_created_via args")
  case None
  with assms show ?thesis by (simp add: pipeline_records_def)
next
  case (Some via)
  show ?thesis
  proof (cases via)
    case OtherVia
    with Some assms show ?thesis by (simp add: pipeline_records_def)
  next
    case (AutoIngestion e)
    with Some assms obtain r where r: "prepareAppend s (ExtPipelineToNidYek e) (arr_lav K_ext_pipe_id_to_nid [NidE (nid node)]) = Inr r"
      and rs: "rs = [r]"
      by (auto simp: pipeline_records_def bindE_eq_Inr)
    from prepareAppend_Inr [OF r] rs Some AutoIngestion show ?thesis by (simp add: arr_lav_def)
  qed
qed

lemma edge_records_Inr:
  assumes "edge_records s new_eid node args = Inr rs"
  shows "map fst rs = (if neighbours args = [] then []
                       else NidToEdgeYek (nid node) # map NidToEdgeYek (neighbours args))
         \<and> (\<forall>(y, l) \<in> set rs. yek_kind y = kind l)"
proof (cases "neighbours args = []")
  case True
  with assms show ?thesis by (simp add: edge_records_def neighbours_def)
next
  case False
  let ?fs = "new_from_edges new_eid node (orElse (arg_from_nid args) [])"
  let ?ts = "new_to_edges new_eid node (length (orElse (arg_from_nid args) [])) (orElse (arg_to_nid args) [])"
  from False assms obtain frs trs where
    frs: "mapE (\<lambda>edge. prepareAppend s (NidToEdgeYek (from_nid edge)) (arr_lav K_nid_to_edge [EdgeE edge])) ?fs = Inr frs"
    and trs: "mapE (\<lambda>edge. prepareAppend s (NidToEdgeYek (to_nid edge)) (arr_lav K_nid_to_edge [EdgeE edge])) ?ts = Inr trs"
    and rs: "rs = (NidToEdgeYek (nid node), arr_lav K_nid_to_edge (map EdgeE (?fs @ ?ts))) # frs @ trs"
    by (auto simp: edge_records_def neighbours_def Let_def bindE_eq_Inr)
  have "map (\<lambda>edge. NidToEdgeYek (from_nid edge)) ?fs = map NidToEdgeYek (map from_nid ?fs)"
    by (simp add: comp_def)
  with mapE_prepareAppend_fst [OF frs]
  have f: "map fst frs = map NidToEdgeYek (orElse (arg_from_nid args) [])" "\<forall>(y, l) \<in> set frs. yek_kind y = kind l"
    by (simp_all add: map_from_nid_new_from_edges)
  have "map (\<lambda>edge. NidToEdgeYek (to_nid edge)) ?ts = map NidToEdgeYek (map to_nid ?ts)"
    by (simp add: comp_def)
  with mapE_prepareAppend_fst [OF trs]
  have t: "map fst trs = map NidToEdgeYek (orElse (arg_to_nid args) [])" "\<forall>(y, l) \<in> set trs. yek_kind y = kind l"
    by (simp_all add: map_to_nid_new_to_edges)
  from f t rs False show ?thesis
    by (auto simp: neighbours_def arr_lav_def)
qed

lemma createNode_records_Inr:
  assumes "createNode_records s new_eid node args = Inr records"
  shows "map fst records = createNode_yeks (nid node) args"
    and "\<forall>(y, l) \<in> set records. yek_kind y = kind l"
    and "(NidToNodeYek (nid node), node_lav node args) \<in> set records"
    and "(AllNidsYek,
          arr_lav K_all_nids (stored_elems s AllNidsYek
                              @ [TagE \<lparr>tag_nid = nid node, tag_created_at = created_at node\<rparr>]))
         \<in> set records"
proof -
  from assms obtain a os ps es where
    a: "prepareAppend s AllNidsYek
          (arr_lav K_all_nids [TagE \<lparr>tag_nid = nid node, tag_created_at = created_at node\<rparr>]) = Inr a"
    and os: "origin_records s node args = Inr os"
    and ps: "pipeline_records s node args = Inr ps"
    and es: "edge_records s new_eid node args = Inr es"
    and records: "records = [a, (NidToNodeYek (nid node), node_lav node args)] @ os @ ps @ es"
    by (auto simp: createNode_records_def bindE_eq_Inr node_lav_def)
  note a' = prepareAppend_Inr [OF a]
  note os' = origin_records_Inr [OF os]
  note ps' = pipeline_records_Inr [OF ps]
  note es' = edge_records_Inr [OF es]
  show "map fst records = createNode_yeks (nid node) args"
    using a' os' ps' es' by (simp add: records createNode_yeks_def)
  show "\<forall>(y, l) \<in> set records. yek_kind y = kind l"
    using a' os' ps' es' by (auto simp: records arr_lav_def node_lav_def)
  show "(NidToNodeYek (nid node), node_lav node args) \<in> set records"
    by (simp add: records)
  show "(AllNidsYek,
          arr_lav K_all_nids (stored_elems s AllNidsYek
                              @ [TagE \<lparr>tag_nid = nid node, tag_created_at = created_at node\<rparr>]))
         \<in> set records"
    using a' by (simp add: records)
qed

lemma nid_new_node [simp]: "nid (new_node n now args) = n"
  by (simp add: new_node_def Let_def)

lemma createNode_Inr:
  "createNode new_nid new_eid now s args = (Inr n, s') \<longleftrightarrow>
     (n = new_nid \<and>
      (\<exists>records. createNode_records s new_eid (new_node new_nid now args) args = Inr records
                 \<and> store_set s records = (Inr (), s')))"
  by (auto simp: createNode_def Let_def split: sum.splits prod.splits)

lemma getNode_created:
  assumes "createNode new_nid new_eid now s args = (Inr n, s')"
  shows "getNode fromJson s' n = Inr (fromJson (new_node new_nid now args))"
proof -
  from assms obtain records where n: "n = new_nid"
    and rs: "createNode_records s new_eid (new_node new_nid now args) args = Inr records"
    and set: "store_set s records = (Inr (), s')"
    by (auto simp: createNode_Inr)
  from createNode_records_Inr(3) [OF rs]
  have "store_get s' (NidToNodeYek new_nid) = Some (node_lav (new_node new_nid now args) args)"
    using store_get_after_set_in [OF set] by simp
  then show ?thesis
    by (simp add: n getNode_def node_of_lav_def node_lav_def)
qed


lemma collect_records_duplicate_key:
  "\<not> distinct (map fst records @ map (stringify \<circ> fst) items) \<Longrightarrow> distinct (map fst records) \<Longrightarrow>
   \<exists>y \<in> fst ` set items. collect_records records items = Inl (SetDuplicateKey (stringify y))"
proof (induction records items rule: collect_records.induct)
  case (1 records)
  then show ?case by simp
next
  case (2 records yek lav items)
  show ?case
  proof (cases "stringify yek \<in> set (map fst records)")
    case True
    then show ?thesis by (simp add: Let_def)
  next
    case False
    with 2 show ?thesis by (auto simp: Let_def)
  qed
qed

lemma collect_records_append:
  "distinct (map fst records @ map (stringify \<circ> fst) xs) \<Longrightarrow>
   collect_records records (xs @ ys) = collect_records (records @ to_records xs) ys"
proof (induction xs arbitrary: records)
  case Nil
  then show ?case by (simp add: to_records_def)
next
  case (Cons x xs)
  obtain y l where x: "x = (y, l)" by (cases x)
  from Cons.prems x have "distinct (map fst (records @ [(stringify y, l)]) @ map (stringify \<circ> fst) xs)"
    by (auto simp: comp_def)
  from Cons.IH [OF this] Cons.prems x show ?case
    by (simp add: Let_def to_records_def)
qed

lemma distinct_createNode_yeks:
  "distinct (createNode_yeks n args) \<longleftrightarrow> distinct (n # neighbours args)"
  by (auto simp: createNode_yeks_def distinct_map inj_on_def
           split: option.splits NodeCreatedVia.splits)

lemma createNode_records_well_typed:
  assumes "well_typed s"
  shows "\<exists>records. createNode_records s new_eid node args = Inr records
                   \<and> (\<forall>(y, l) \<in> set records. lav_ok y l)"
proof -
  let ?tag = "TagE \<lparr>tag_nid = nid node, tag_created_at = created_at node\<rparr>"
  have a: "prepareAppend s AllNidsYek (arr_lav K_all_nids [?tag])
             = Inr (AllNidsYek, arr_lav K_all_nids (stored_elems s AllNidsYek @ [?tag]))"
       "lav_ok AllNidsYek (arr_lav K_all_nids (stored_elems s AllNidsYek @ [?tag]))"
    using prepareAppend_well_typed [OF assms, of AllNidsYek K_all_nids "[?tag]"]
    by (simp_all add: lav_ok_arr is_array_kind_def)
  have os: "\<exists>os. origin_records s node args = Inr os \<and> (\<forall>(y, l) \<in> set os. lav_ok y l)"
  proof (cases "arg_origin args")
    case None
    then show ?thesis by (simp add: origin_records_def)
  next
    case (Some origin)
    then show ?thesis
      using prepareAppend_well_typed [OF assms, of "OriginToNidYek origin" K_origin_to_nid "[NidE (nid node)]"]
      by (simp add: origin_records_def lav_ok_arr is_array_kind_def)
  qed
  have ps: "\<exists>ps. pipeline_records s node args = Inr ps \<and> (\<forall>(y, l) \<in> set ps. lav_ok y l)"
  proof (cases "arg_created_via args")
    case None
    then show ?thesis by (simp add: pipeline_records_def)
  next
    case (Some via)
    show ?thesis
    proof (cases via)
      case OtherVia
      with Some show ?thesis by (simp add: pipeline_records_def)
    next
      case (AutoIngestion e)
      with Some show ?thesis
        using prepareAppend_well_typed [OF assms, of "ExtPipelineToNidYek e" K_ext_pipe_id_to_nid "[NidE (nid node)]"]
        by (simp add: pipeline_records_def lav_ok_arr is_array_kind_def)
    qed
  qed
  have app: "\<And>key (xs :: TEdgeJson list).
      \<exists>rs. mapE (\<lambda>edge. prepareAppend s (NidToEdgeYek (key edge)) (arr_lav K_nid_to_edge [EdgeE edge])) xs = Inr rs
           \<and> (\<forall>(y, l) \<in> set rs. lav_ok y l)"
  proof -
    fix key and xs :: "TEdgeJson list"
    let ?g = "\<lambda>edge. (NidToEdgeYek (key edge),
                 arr_lav K_nid_to_edge (stored_elems s (NidToEdgeYek (key edge)) @ [EdgeE edge]))"
    have one: "\<And>edge. prepareAppend s (NidToEdgeYek (key edge)) (arr_lav K_nid_to_edge [EdgeE edge]) = Inr (?g edge)
                 \<and> lav_ok (fst (?g edge)) (snd (?g edge))"
    proof -
      fix edge
      show "prepareAppend s (NidToEdgeYek (key edge)) (arr_lav K_nid_to_edge [EdgeE edge]) = Inr (?g edge)
                 \<and> lav_ok (fst (?g edge)) (snd (?g edge))"
        using prepareAppend_well_typed [OF assms, of "NidToEdgeYek (key edge)" K_nid_to_edge "[EdgeE edge]"]
        by (simp add: lav_ok_arr is_array_kind_def)
    qed
    then have "mapE (\<lambda>edge. prepareAppend s (NidToEdgeYek (key edge)) (arr_lav K_nid_to_edge [EdgeE edge])) xs
                 = Inr (map ?g xs)"
      by (intro mapE_Inr_map) simp
    moreover have "\<forall>(y, l) \<in> set (map ?g xs). lav_ok y l"
      using one by auto
    ultimately show "\<exists>rs. mapE (\<lambda>edge. prepareAppend s (NidToEdgeYek (key edge)) (arr_lav K_nid_to_edge [EdgeE edge])) xs = Inr rs
           \<and> (\<forall>(y, l) \<in> set rs. lav_ok y l)"
      by blast
  qed
  have es: "\<exists>es. edge_records s new_eid node args = Inr es \<and> (\<forall>(y, l) \<in> set es. lav_ok y l)"
  proof (cases "neighbours args = []")
    case True
    then show ?thesis by (simp add: edge_records_def neighbours_def)
  next
    case False
    let ?fs = "new_from_edges new_eid node (orElse (arg_from_nid args) [])"
    let ?ts = "new_to_edges new_eid node (length (orElse (arg_from_nid args) [])) (orElse (arg_to_nid args) [])"
    from app [of from_nid ?fs] obtain frs where
      frs: "mapE (\<lambda>edge. prepareAppend s (NidToEdgeYek (from_nid edge)) (arr_lav K_nid_to_edge [EdgeE edge])) ?fs = Inr frs"
           "\<forall>(y, l) \<in> set frs. lav_ok y l"
      by blast
    from app [of to_nid ?ts] obtain trs where
      trs: "mapE (\<lambda>edge. prepareAppend s (NidToEdgeYek (to_nid edge)) (arr_lav K_nid_to_edge [EdgeE edge])) ?ts = Inr trs"
           "\<forall>(y, l) \<in> set trs. lav_ok y l"
      by blast
    have own: "lav_ok (NidToEdgeYek (nid node)) (arr_lav K_nid_to_edge (map EdgeE (?fs @ ?ts)))"
      by (auto simp: lav_ok_arr is_array_kind_def list_all_iff)
    from False frs trs own show ?thesis
      by (auto simp: edge_records_def neighbours_def Let_def)
  qed
  have node: "lav_ok (NidToNodeYek (nid node)) (node_lav node args)"
    by (simp add: lav_ok_def node_lav_def)
  from a os ps es node show ?thesis
    by (auto simp: createNode_records_def node_lav_def)
qed

lemma createNode_succeeds:
  assumes "well_typed s" and "distinct (new_nid # neighbours args)"
  shows "\<exists>s'. createNode new_nid new_eid now s args = (Inr new_nid, s') \<and> well_typed s'"
proof -
  from createNode_records_well_typed [OF assms(1)] obtain records where
    rs: "createNode_records s new_eid (new_node new_nid now args) args = Inr records"
    and ok: "\<forall>(y, l) \<in> set records. lav_ok y l"
    by blast
  from createNode_records_Inr(1,2) [OF rs] assms(2)
  have "distinct (map fst records)" "\<forall>(y, l) \<in> set records. yek_kind y = kind l"
    by (simp_all add: distinct_createNode_yeks)
  then have set: "store_set s records = (Inr (), substrate_set s (to_records records))"
    by (simp add: store_set_Inr)
  with well_typed_set [OF assms(1) set ok] rs show ?thesis
    by (auto simp: createNode_Inr)
qed

text \<open>
  C2. A node read back right after its creation is the record built from the creation
  arguments: its text, extended attributes and index text are the arguments', its type
  tag is the argument's (\<^verbatim>\<open>NodeType.Text\<close> when the caller gave none), and its
  \<^verbatim>\<open>updated_at\<close> equals its \<^verbatim>\<open>created_at\<close>. \<^verbatim>\<open>getNode\<close> hands that record to
  \<^verbatim>\<open>NodeUtil.fromJson\<close>. Creation succeeds on a well-typed store whenever the
  generated id and the neighbour ids are pairwise distinct.
\<close>

theorem createNode_getNode_round_trip:
  "(well_typed s \<and> distinct (new_nid # neighbours args)
      \<longrightarrow> (\<exists>s'. createNode new_nid new_eid now s args = (Inr new_nid, s')))
   \<and> (\<forall>n s'. createNode new_nid new_eid now s args = (Inr n, s')
      \<longrightarrow> (\<exists>node. getNode fromJson s' n = Inr (fromJson node)
             \<and> nid node = n
             \<and> node_text node = arg_text args
             \<and> extattrs node = arg_extattrs args
             \<and> index_text node = arg_index_text args
             \<and> ntype node = orElse (arg_ntype args) Text
             \<and> created_at node = orElse (arg_created_at args) now
             \<and> updated_at node = created_at node))"
proof (intro conjI impI allI)
  assume "well_typed s \<and> distinct (new_nid # neighbours args)"
  then show "\<exists>s'. createNode new_nid new_eid now s args = (Inr new_nid, s')"
    using createNode_succeeds [of s new_nid args new_eid now] by blast
next
  fix n s'
  assume c: "createNode new_nid new_eid now s args = (Inr n, s')"
  then have n: "n = new_nid" by (simp add: createNode_Inr)
  from getNode_created [OF c]
  have "getNode fromJson s' n = Inr (fromJson (new_node new_nid now args))" .
  then show "\<exists>node. getNode fromJson s' n = Inr (fromJson node)
             \<and> nid node = n
             \<and> node_text node = arg_text args
             \<and> extattrs node = arg_extattrs args
             \<and> index_text node = arg_index_text args
             \<and> ntype node = orElse (arg_ntype args) Text
             \<and> created_at node = orElse (arg_created_at args) now
             \<and> updated_at node = created_at node"
    by (intro exI [of _ "new_node new_nid now args"]) (simp add: n new_node_def Let_def)
qed


theorem createNode_getNode_round_trip_witness:
  "\<exists>s' node. createNode ''n1'' eid_numbered 7 empty_store args_plain = (Inr ''n1'', s')
      \<and> getNode (\<lambda>n. n) s' ''n1'' = Inr node
      \<and> node_text node = ''hello'' \<and> ntype node = Text
      \<and> created_at node = 7 \<and> updated_at node = 7"
proof -
  note rt = createNode_getNode_round_trip [of empty_store "''n1''" args_plain eid_numbered 7 "\<lambda>n. n"]
  have pre: "well_typed empty_store \<and> distinct (''n1'' # neighbours args_plain)"
    by (simp add: well_typed_empty neighbours_def args_plain_def orElse_def)
  from rt pre obtain s' where s': "createNode ''n1'' eid_numbered 7 empty_store args_plain = (Inr ''n1'', s')"
    by blast
  from rt s' have "\<exists>node. getNode (\<lambda>n. n) s' ''n1'' = Inr node
             \<and> nid node = ''n1''
             \<and> node_text node = arg_text args_plain
             \<and> extattrs node = arg_extattrs args_plain
             \<and> index_text node = arg_index_text args_plain
             \<and> ntype node = orElse (arg_ntype args_plain) Text
             \<and> created_at node = orElse (arg_created_at args_plain) 7
             \<and> updated_at node = created_at node"
    by blast
  then obtain node where "getNode (\<lambda>n. n) s' ''n1'' = Inr node" "node_text node = ''hello''"
    "ntype node = Text" "created_at node = 7" "updated_at node = 7"
    by (auto simp: args_plain_def orElse_def)
  with s' show ?thesis by blast
qed

text \<open>
  C10. When some neighbour id occurs more than once in the inbound and outbound lists
  taken together, \<^verbatim>\<open>createNode\<close> fails and leaves the substrate untouched. On a
  well-typed store every read of the preparation succeeds, and the failure is the
  duplicate-key error of \<^verbatim>\<open>set\<close>, raised for the adjacency key of a neighbour.
\<close>

theorem createNode_repeated_neighbour:
  assumes "\<not> distinct (neighbours args)"
  shows "(\<exists>e. createNode new_nid new_eid now s args = (Inl e, s))
         \<and> (well_typed s \<longrightarrow>
              (\<exists>x \<in> set (neighbours args).
                 createNode new_nid new_eid now s args
                   = (Inl (SetDuplicateKey (stringify (NidToEdgeYek x))), s)))"
proof (cases "createNode_records s new_eid (new_node new_nid now args) args")
  case (Inl e)
  then have "createNode new_nid new_eid now s args = (Inl e, s)"
    by (simp add: createNode_def Let_def)
  moreover have "\<not> well_typed s"
    using createNode_records_well_typed [of s new_eid "new_node new_nid now args" args] Inl by auto
  ultimately show ?thesis by blast
next
  case (Inr records)
  from assms have ne: "neighbours args \<noteq> []" by auto
  define A where "A = [AllNidsYek, NidToNodeYek new_nid]
     @ (case arg_origin args of None \<Rightarrow> [] | Some origin \<Rightarrow> [OriginToNidYek origin])
     @ (case arg_created_via args of Some (AutoIngestion e) \<Rightarrow> [ExtPipelineToNidYek e] | _ \<Rightarrow> [])
     @ [NidToEdgeYek new_nid]"
  let ?B = "map NidToEdgeYek (neighbours args)"
  from createNode_records_Inr(1) [OF Inr] ne have eq: "A @ ?B = map fst records"
    by (simp add: createNode_yeks_def A_def)
  define pre where "pre = take (length A) records"
  define rest where "rest = drop (length A) records"
  have split: "records = pre @ rest" "map fst pre = A" "map fst rest = ?B"
    using append_eq_conv_conj [THEN iffD1, OF eq]
    by (simp_all add: pre_def rest_def take_map drop_map)
  have dA: "distinct A"
    by (auto simp: A_def split: option.splits NodeCreatedVia.splits)
  have keys_pre: "map fst (to_records pre) = map stringify A"
    using split(2) by (simp add: map_fst_to_records flip: map_map)
  have d_pre: "distinct (map fst (to_records pre))"
    unfolding keys_pre using dA by (simp add: distinct_map inj_on_def)
  have "\<not> distinct ?B" using assms by (simp add: distinct_map inj_on_def)
  then have "\<not> distinct (map (stringify \<circ> fst) rest)"
    using split(3) by (simp add: distinct_map inj_on_def flip: map_map)
  then have nd: "\<not> distinct (map fst (to_records pre) @ map (stringify \<circ> fst) rest)"
    by simp
  have "collect_records [] records = collect_records (to_records pre) rest"
    unfolding split(1) using collect_records_append [of "[]" pre rest] d_pre
    by (simp add: map_fst_to_records)
  with collect_records_duplicate_key [OF nd d_pre]
  obtain y where y: "y \<in> fst ` set rest" "collect_records [] records = Inl (SetDuplicateKey (stringify y))"
    by auto
  from y(1) split(3) have "y \<in> set ?B" by (metis list.set_map)
  then obtain x where x: "x \<in> set (neighbours args)" "y = NidToEdgeYek x" by auto
  from createNode_records_Inr(2) [OF Inr] have "first_mismatch records = None"
    by (simp add: first_mismatch_None)
  with y(2) have "store_set s records = (Inl (SetDuplicateKey (stringify y)), s)"
    by (simp add: store_set_def)
  with Inr have "createNode new_nid new_eid now s args = (Inl (SetDuplicateKey (stringify y)), s)"
    by (simp add: createNode_def Let_def)
  with x show ?thesis by blast
qed

theorem createNode_repeated_neighbour_witness:
  "createNode ''n1'' eid_numbered 7 empty_store (args_linked [''x''] [''x''])
     = (Inl (SetDuplicateKey ''nid->edge:x''), empty_store)"
  using createNode_repeated_neighbour [of "args_linked [''x''] [''x'']" "''n1''" eid_numbered 7 empty_store]
        well_typed_empty
  by (simp add: neighbours_def args_linked_def orElse_def)


section \<open>Batch reads\<close>

lemma map_set_map:
  "map_set (map (\<lambda>y. (stringify y, y)) seen) (stringify y) y
     = map (\<lambda>y. (stringify y, y)) (if y \<in> set seen then seen else seen @ [y])"
  by (induction seen) auto

lemma keyToYek_first_occurrences:
  "foldl (\<lambda>m singleYek. map_set m (stringify singleYek) singleYek) (map (\<lambda>y. (stringify y, y)) seen) yeks
     = map (\<lambda>y. (stringify y, y)) (first_occurrences seen yeks)"
proof (induction yeks arbitrary: seen)
  case Nil
  then show ?case by simp
next
  case (Cons y yeks)
  show ?case
    using Cons.IH [of "if y \<in> set seen then seen else seen @ [y]"]
    by (simp only: foldl_Cons map_set_map first_occurrences.simps)
qed

lemma map_filter_map: "List.map_filter f (map g xs) = List.map_filter (\<lambda>x. f (g x)) xs"
  by (induction xs) (simp_all add: List.map_filter_simps split: option.splits)

lemma set_map_filter: "set (List.map_filter f xs) = {y. \<exists>x \<in> set xs. f x = Some y}"
  by (induction xs) (auto simp: List.map_filter_simps split: option.splits)

lemma store_get_batch_eq:
  "store_get_batch s yeks
     = List.map_filter (\<lambda>y. map_option (\<lambda>lav. (y, lav)) (store_get s y)) (first_occurrences [] yeks)"
proof -
  have "foldl (\<lambda>m singleYek. map_set m (stringify singleYek) singleYek) [] yeks
          = map (\<lambda>y. (stringify y, y)) (first_occurrences [] yeks)"
    using keyToYek_first_occurrences [of "[]" yeks] by simp
  then show ?thesis
    by (simp add: store_get_batch_def Let_def map_filter_map store_get_def)
qed

lemma first_occurrences_map:
  "inj f \<Longrightarrow> first_occurrences (map f seen) (map f xs) = map f (first_occurrences seen xs)"
proof (induction xs arbitrary: seen)
  case Nil
  then show ?case by simp
next
  case (Cons x xs)
  have "(if f x \<in> set (map f seen) then map f seen else map f seen @ [f x])
          = map f (if x \<in> set seen then seen else seen @ [x])"
    using Cons.prems by (auto simp: inj_def)
  with Cons.IH [OF Cons.prems, of "if x \<in> set seen then seen else seen @ [x]"] show ?case
    by simp
qed

lemma set_first_occurrences: "set (first_occurrences seen xs) = set seen \<union> set xs"
  by (induction xs arbitrary: seen) auto

lemma distinct_first_occurrences: "distinct seen \<Longrightarrow> distinct (first_occurrences seen xs)"
  by (induction xs arbitrary: seen) auto

lemma first_occurrences_distinct: "distinct (seen @ xs) \<Longrightarrow> first_occurrences seen xs = seen @ xs"
  by (induction xs arbitrary: seen) auto

lemma store_get_batch_mem:
  "(y, lav) \<in> set (store_get_batch s yeks) \<longleftrightarrow> y \<in> set yeks \<and> store_get s y = Some lav"
  by (auto simp: store_get_batch_eq set_map_filter set_first_occurrences)

lemma stored_node_well_typed:
  assumes "well_typed s"
  shows "store_get s (NidToNodeYek n) = (case stored_node s n of None \<Rightarrow> None
           | Some node \<Rightarrow> Some ((the (store_get s (NidToNodeYek n)))\<lparr>lav_value := NodeV node\<rparr>))"
proof (cases "store_get s (NidToNodeYek n)")
  case None
  then show ?thesis by (simp add: stored_node_def)
next
  case (Some lav)
  with assms have "lav_ok (NidToNodeYek n) lav" by (simp add: well_typed_def)
  then obtain node where "lav_value lav = NodeV node"
    by (cases "lav_value lav") (auto simp: lav_ok_def is_array_kind_def)
  with Some show ?thesis by (simp add: stored_node_def)
qed

lemma node_lavs_well_typed:
  assumes "well_typed s"
  shows "mapE (node_of_lav fromJson)
           (map snd (List.map_filter (\<lambda>y. map_option (\<lambda>lav. (y, lav)) (store_get s y)) (map NidToNodeYek ns)))
         = Inr (map fromJson (List.map_filter (stored_node s) ns))"
proof (induction ns)
  case Nil
  then show ?case by (simp add: List.map_filter_simps)
next
  case (Cons n ns)
  show ?case
  proof (cases "store_get s (NidToNodeYek n)")
    case None
    with Cons show ?thesis by (simp add: List.map_filter_simps stored_node_def)
  next
    case (Some lav)
    with assms have "lav_ok (NidToNodeYek n) lav" by (simp add: well_typed_def)
    then obtain node where "lav_value lav = NodeV node"
      by (cases "lav_value lav") (auto simp: lav_ok_def is_array_kind_def)
    with Some Cons show ?thesis
      by (simp add: List.map_filter_simps stored_node_def node_of_lav_def)
  qed
qed

text \<open>
  C7. On a well-typed store \<^verbatim>\<open>getNodeBatch\<close> never fails. Its result lists, for the
  requested ids in the order of their first occurrence, the node record of each id that
  has one; an id without a record contributes nothing to the list.
\<close>

theorem getNodeBatch_drops_missing:
  assumes "well_typed s"
  shows "getNodeBatch fromJson s nids
           = Inr (map fromJson (List.map_filter (stored_node s) (first_occurrences [] nids)))"
proof -
  have "first_occurrences [] (map NidToNodeYek nids) = map NidToNodeYek (first_occurrences [] nids)"
    using first_occurrences_map [of NidToNodeYek "[]" nids] by (simp add: inj_def)
  then show ?thesis
    using node_lavs_well_typed [OF assms, of fromJson "first_occurrences [] nids"]
    by (simp add: getNodeBatch_def Let_def store_get_batch_eq)
qed


lemma createNode_store_get_node:
  assumes "createNode new_nid new_eid now s args = (Inr n, s')"
  shows "store_get s' (NidToNodeYek m)
           = (if m = new_nid then Some (node_lav (new_node new_nid now args) args)
              else store_get s (NidToNodeYek m))"
proof -
  from assms obtain records where
    rs: "createNode_records s new_eid (new_node new_nid now args) args = Inr records"
    and set: "store_set s records = (Inr (), s')"
    by (auto simp: createNode_Inr)
  show ?thesis
  proof (cases "m = new_nid")
    case True
    with createNode_records_Inr(3) [OF rs] store_get_after_set_in [OF set] show ?thesis by simp
  next
    case False
    have "fst ` set records = set (createNode_yeks new_nid args)"
      using createNode_records_Inr(1) [OF rs] by (metis list.set_map nid_new_node)
    with False have "NidToNodeYek m \<notin> fst ` set records"
      by (auto simp: createNode_yeks_def split: option.splits NodeCreatedVia.splits if_splits)
    with store_get_after_set_notin [OF set] False show ?thesis by simp
  qed
qed

lemma store_one_created:
  "createNode ''n1'' eid_numbered 7 empty_store args_plain = (Inr ''n1'', store_one)"
  "well_typed store_one"
proof -
  from createNode_succeeds [of empty_store "''n1''" args_plain eid_numbered 7]
  obtain s' where "createNode ''n1'' eid_numbered 7 empty_store args_plain = (Inr ''n1'', s')"
    "well_typed s'"
    by (auto simp: well_typed_empty neighbours_def args_plain_def orElse_def)
  then show "createNode ''n1'' eid_numbered 7 empty_store args_plain = (Inr ''n1'', store_one)"
    "well_typed store_one"
    by (simp_all add: store_one_def)
qed

lemma stored_node_store_one:
  "stored_node store_one m = (if m = ''n1'' then Some (new_node ''n1'' 7 args_plain) else None)"
  using createNode_store_get_node [OF store_one_created(1), of m]
  by (simp add: stored_node_def node_lav_def store_get_def empty_store_def)

theorem getNodeBatch_drops_missing_witness:
  "getNodeBatch (\<lambda>n. n) store_one [''zz'', ''n1'', ''zz''] = Inr [new_node ''n1'' 7 args_plain]"
  using getNodeBatch_drops_missing [OF store_one_created(2), of "\<lambda>n. n" "[''zz'', ''n1'', ''zz'']"]
  by (simp add: stored_node_store_one List.map_filter_simps)


section \<open>The global listing\<close>

lemma createNode_listing:
  assumes "createNode n e now s args = (Inr n', s')"
  shows "stored_elems s' AllNidsYek = stored_elems s AllNidsYek @ [TagE (creation_tag (n, e, now, args))]"
proof -
  from assms obtain records where
    rs: "createNode_records s e (new_node n now args) args = Inr records"
    and set: "store_set s records = (Inr (), s')"
    by (auto simp: createNode_Inr)
  from createNode_records_Inr(4) [OF rs] store_get_after_set_in [OF set]
  have "store_get s' AllNidsYek
          = Some (arr_lav K_all_nids (stored_elems s AllNidsYek
                    @ [TagE \<lparr>tag_nid = n, tag_created_at = created_at (new_node n now args)\<rparr>]))"
    by simp
  then show ?thesis
    by (simp add: stored_elems_def [of s'] arr_lav_def new_node_def Let_def)
qed

lemma createNode_well_typed:
  assumes "well_typed s" and "createNode n e now s args = (r, s')"
  shows "well_typed s'"
proof -
  from createNode_records_well_typed [OF assms(1)] obtain records where
    rs: "createNode_records s e (new_node n now args) args = Inr records"
    and ok: "\<forall>(y, l) \<in> set records. lav_ok y l"
    by blast
  obtain r0 where "store_set s records = (r0, s')"
    using assms(2) rs by (auto simp: createNode_def Let_def split: sum.splits prod.splits)
  from well_typed_set [OF assms(1) this ok] show ?thesis .
qed

lemma create_all_listing:
  assumes "well_typed s" and "create_all s cs = (Inr ns, s')"
  shows "stored_elems s' AllNidsYek = stored_elems s AllNidsYek @ map (\<lambda>c. TagE (creation_tag c)) cs
         \<and> ns = map fst cs \<and> well_typed s'"
  using assms
proof (induction cs arbitrary: s ns)
  case Nil
  then show ?case by simp
next
  case (Cons c cs)
  obtain n e now args where c: "c = (n, e, now, args)" by (cases c)
  from Cons.prems(2) c obtain n' s1 ns' where
    one: "createNode n e now s args = (Inr n', s1)"
    and rest: "create_all s1 cs = (Inr ns', s')"
    and ns: "ns = n' # ns'"
    by (auto split: sum.splits prod.splits)
  have wt1: "well_typed s1" using createNode_well_typed [OF Cons.prems(1) one] .
  have n': "n' = n" using one by (simp add: createNode_Inr)
  from Cons.IH [OF wt1 rest] createNode_listing [OF one] show ?case
    by (simp add: c ns n')
qed

lemma create_all_succeeds:
  assumes "well_typed s" and "\<forall>(n, e, now, args) \<in> set cs. distinct (n # neighbours args)"
  shows "\<exists>s'. create_all s cs = (Inr (map fst cs), s')"
  using assms
proof (induction cs arbitrary: s)
  case Nil
  then show ?case by simp
next
  case (Cons c cs)
  obtain n e now args where c: "c = (n, e, now, args)" by (cases c)
  from Cons.prems(2) c have "distinct (n # neighbours args)" by simp
  from createNode_succeeds [OF Cons.prems(1) this, of e now] obtain s1 where
    one: "createNode n e now s args = (Inr n, s1)" and wt1: "well_typed s1"
    by blast
  from Cons.IH [OF wt1] Cons.prems(2) obtain s' where "create_all s1 cs = (Inr (map fst cs), s')"
    by auto
  with one show ?case by (simp add: c)
qed

lemma stored_elems_all_nids:
  assumes "well_typed s"
  shows "stored_elems s AllNidsYek = map TagE (listed_tags s)"
proof -
  have ok: "list_all (elem_ok K_all_nids) (stored_elems s AllNidsYek)"
  proof (cases "store_get s AllNidsYek")
    case None
    then show ?thesis by (simp add: stored_elems_def)
  next
    case (Some lav)
    with assms have "lav_ok AllNidsYek lav" by (simp add: well_typed_def)
    with Some show ?thesis
      by (cases "lav_value lav") (auto simp: lav_ok_def stored_elems_def)
  qed
  have "\<And>xs. list_all (elem_ok K_all_nids) xs \<Longrightarrow>
          xs = map TagE (List.map_filter (\<lambda>x. case x of TagE t \<Rightarrow> Some t | _ \<Rightarrow> None) xs)"
  proof -
    fix xs show "list_all (elem_ok K_all_nids) xs \<Longrightarrow>
          xs = map TagE (List.map_filter (\<lambda>x. case x of TagE t \<Rightarrow> Some t | _ \<Rightarrow> None) xs)"
    proof (induction xs)
      case Nil
      then show ?case by (simp add: List.map_filter_simps)
    next
      case (Cons x xs)
      then show ?case by (cases x) (simp_all add: List.map_filter_simps)
    qed
  qed
  from this [OF ok] show ?thesis by (simp add: listed_tags_def)
qed

lemma mapE_tag_of_elem: "mapE tag_of_elem (map TagE ts) = Inr ts"
  by (induction ts) (simp_all add: tag_of_elem_def)

lemma map_filter_append: "List.map_filter f (xs @ ys) = List.map_filter f xs @ List.map_filter f ys"
  by (simp add: List.map_filter_def)

lemma getAllNids_well_typed:
  assumes "well_typed s"
  shows "getAllNids s = Inr (map tag_nid (sort_key (\<lambda>t. - tag_created_at t) (listed_tags s)))"
proof (cases "store_get s AllNidsYek")
  case None
  then show ?thesis
    by (simp add: getAllNids_def listed_tags_def stored_elems_def List.map_filter_simps)
next
  case (Some lav)
  with assms have "lav_ok AllNidsYek lav" by (simp add: well_typed_def)
  then obtain xs where xs: "lav_value lav = ArrV xs"
    by (cases "lav_value lav") (auto simp: lav_ok_def is_array_kind_def)
  with Some have "xs = stored_elems s AllNidsYek" by (simp add: stored_elems_def)
  then have "xs = map TagE (listed_tags s)" using stored_elems_all_nids [OF assms] by simp
  then have "mapE tag_of_elem xs = Inr (listed_tags s)"
    by (simp add: mapE_tag_of_elem)
  with Some xs show ?thesis by (simp add: getAllNids_def)
qed

lemma listed_tags_append:
  "stored_elems s' AllNidsYek = stored_elems s AllNidsYek @ map (\<lambda>c. TagE (creation_tag c)) cs \<Longrightarrow>
   listed_tags s' = listed_tags s @ map creation_tag cs"
proof -
  have "List.map_filter (\<lambda>x. case x of TagE t \<Rightarrow> Some t | _ \<Rightarrow> None) (map (\<lambda>c. TagE (creation_tag c)) cs)
          = map creation_tag cs"
    by (induction cs) (simp_all add: List.map_filter_simps)
  moreover assume "stored_elems s' AllNidsYek = stored_elems s AllNidsYek @ map (\<lambda>c. TagE (creation_tag c)) cs"
  ultimately show ?thesis by (simp add: listed_tags_def map_filter_append)
qed

lemma descending_sort_key:
  "sorted_wrt (\<lambda>x y. x \<ge> y) (map tag_created_at (sort_key (\<lambda>t. - tag_created_at t) ts))"
proof -
  have "sorted (map (\<lambda>t. - tag_created_at t) (sort_key (\<lambda>t. - tag_created_at t) ts))"
    by (rule sorted_sort_key)
  then show ?thesis by (simp add: sorted_wrt_map)
qed

text \<open>
  C8. After a run of successful creations on a well-typed store, \<^verbatim>\<open>getAllNids\<close> returns
  the ids of the tags already listed and of every node created in the run, ordered by
  creation time, latest first. Among equal creation times the order of the listing is
  kept.
\<close>

theorem getAllNids_latest_first:
  assumes "well_typed s" and "create_all s cs = (Inr ns, s')"
  shows "\<exists>tags. getAllNids s' = Inr (map tag_nid tags)
           \<and> tags = sort_key (\<lambda>t. - tag_created_at t) (listed_tags s @ map creation_tag cs)
           \<and> sorted_wrt (\<lambda>x y. x \<ge> y) (map tag_created_at tags)
           \<and> set (map tag_nid tags) = tag_nid ` set (listed_tags s) \<union> set ns
           \<and> ns = map fst cs"
proof -
  note l = create_all_listing [OF assms]
  from l have tags: "listed_tags s' = listed_tags s @ map creation_tag cs"
    using listed_tags_append by blast
  from l have "well_typed s'" by simp
  from getAllNids_well_typed [OF this] tags
  have "getAllNids s' = Inr (map tag_nid (sort_key (\<lambda>t. - tag_created_at t) (listed_tags s @ map creation_tag cs)))"
    by simp
  moreover have "tag_nid ` set (map creation_tag cs) = set (map fst cs)"
    by (induction cs) auto
  ultimately show ?thesis
    using l descending_sort_key [of "listed_tags s @ map creation_tag cs"]
    by (auto simp: image_Un)
qed

lemma store_three_created:
  "create_all empty_store three_creations = (Inr [''a'', ''b'', ''c''], store_three)"
proof -
  have "\<forall>(n, e, now, args) \<in> set three_creations. distinct (n # neighbours args)"
    by (simp add: three_creations_def neighbours_def args_plain_def orElse_def)
  from create_all_succeeds [OF well_typed_empty this] show ?thesis
    by (auto simp: store_three_def three_creations_def)
qed

theorem getAllNids_latest_first_witness:
  "getAllNids store_three = Inr [''b'', ''c'', ''a'']"
proof -
  have "listed_tags empty_store = []"
    by (simp add: listed_tags_def stored_elems_def store_get_def empty_store_def List.map_filter_simps)
  with getAllNids_latest_first [OF well_typed_empty store_three_created] show ?thesis
    by (auto simp: three_creations_def args_plain_def orElse_def)
qed


section \<open>Ingestion progress\<close>

lemma advance_then_get:
  assumes "getUserIngestionProgress s e = Inr p0"
  shows "\<exists>s' p. advanceUserIngestionProgress s e w = (Inr (), s')
           \<and> getUserIngestionProgress s' e = Inr p \<and> ingested_until p = w"
proof -
  let ?lav = "\<lparr>kind = K_ext_pipe_id_to_progress,
               lav_value = ProgressV \<lparr>stored_epid = Some (epid p0), stored_ingested_until = w\<rparr>,
               auxiliary = None\<rparr>"
  have adv: "advanceUserIngestionProgress s e w = store_set s [(ExtPipelineYek e, ?lav)]"
    using assms by (simp add: advanceUserIngestionProgress_def Let_def)
  have "store_set s [(ExtPipelineYek e, ?lav)]
          = (Inr (), substrate_set s (to_records [(ExtPipelineYek e, ?lav)]))"
    by (simp add: store_set_Inr)
  moreover from this have "store_get (substrate_set s (to_records [(ExtPipelineYek e, ?lav)])) (ExtPipelineYek e)
                  = Some ?lav"
    using store_get_after_set_in by fastforce
  ultimately show ?thesis
    using adv by (simp add: getUserIngestionProgress_def)
qed

lemma advance_reads_eq:
  assumes "getUserIngestionProgress s e = Inr p0"
  shows "advance_reads s e ws = Inr ws"
  using assms
proof (induction ws arbitrary: s p0)
  case Nil
  then show ?case by simp
next
  case (Cons w ws)
  from advance_then_get [OF Cons.prems, of w] obtain s' p where
    a: "advanceUserIngestionProgress s e w = (Inr (), s')"
    and g: "getUserIngestionProgress s' e = Inr p" and w: "ingested_until p = w"
    by blast
  from Cons.IH [OF g] a g w show ?case by simp
qed

lemma unseen_pipeline_zero:
  "getUserIngestionProgress empty_store e = Inr \<lparr>epid = e, ingested_until = 0\<rparr>"
  by (simp add: getUserIngestionProgress_def store_get_def empty_store_def)

text \<open>
  C5, as the code has it. \<^verbatim>\<open>advanceUserIngestionProgress\<close> stores the watermark it is
  given, whatever was stored before. In a run of calls for one pipeline whose stored
  progress is readable, the watermark read back after each call is the one that call
  supplied; the values read back never decrease when the supplied values never do.
\<close>

theorem advance_reads_supplied:
  assumes "getUserIngestionProgress s e = Inr p0"
  shows "\<exists>rs. advance_reads s e ws = Inr rs \<and> rs = ws \<and> (sorted ws \<longrightarrow> sorted rs)"
  using advance_reads_eq [OF assms] by simp

theorem advance_reads_supplied_witness:
  "\<exists>rs. advance_reads empty_store (UserExternalPipelineId ''p'') [3, 5, 8] = Inr rs
        \<and> rs = [3, 5, 8] \<and> sorted rs"
  using advance_reads_supplied [OF unseen_pipeline_zero, of "UserExternalPipelineId ''p''" "[3, 5, 8]"]
  by simp

text \<open>
  C5, as stated, fails: after watermark 5 has been stored and read back, advancing to 3
  succeeds and the next read returns 3.
\<close>

theorem watermark_lowered_counterexample:
  "advance_reads empty_store (UserExternalPipelineId ''p'') [5, 3] = Inr [5, 3]
   \<and> \<not> sorted [5, 3 :: int]"
  using advance_reads_eq [OF unseen_pipeline_zero, of "UserExternalPipelineId ''p''" "[5, 3]"]
  by simp


section \<open>Associations\<close>

lemma every_other_differs_assoc:
  "list_all (elem_ok K_origin_to_ext_assoc) xs \<Longrightarrow> every_other_differs h xs = Inr (\<not> references h xs)"
proof (induction xs)
  case Nil
  then show ?case by (simp add: references_def)
next
  case (Cons x xs)
  then show ?case by (cases x) (auto simp: references_def)
qed

lemma assoc_bucket_well_typed:
  assumes "well_typed s"
  shows "lav_value (orEmpty (store_get s (assoc_yek origin))) = ArrV (stored_elems s (assoc_yek origin))"
    and "kind (orEmpty (store_get s (assoc_yek origin))) = K_origin_to_ext_assoc"
    and "list_all (elem_ok K_origin_to_ext_assoc) (stored_elems s (assoc_yek origin))"
proof -
  have "lav_value (orEmpty (store_get s (assoc_yek origin))) = ArrV (stored_elems s (assoc_yek origin))
        \<and> kind (orEmpty (store_get s (assoc_yek origin))) = K_origin_to_ext_assoc
        \<and> list_all (elem_ok K_origin_to_ext_assoc) (stored_elems s (assoc_yek origin))"
  proof (cases "store_get s (assoc_yek origin)")
    case None
    then show ?thesis by (simp add: orEmpty_def stored_elems_def arr_lav_def)
  next
    case (Some lav)
    with assms have "lav_ok (assoc_yek origin) lav" by (simp add: well_typed_def)
    with Some show ?thesis
      by (cases "lav_value lav") (auto simp: lav_ok_def orEmpty_def stored_elems_def assoc_yek_def)
  qed
  then show "lav_value (orEmpty (store_get s (assoc_yek origin))) = ArrV (stored_elems s (assoc_yek origin))"
    and "kind (orEmpty (store_get s (assoc_yek origin))) = K_origin_to_ext_assoc"
    and "list_all (elem_ok K_origin_to_ext_assoc) (stored_elems s (assoc_yek origin))"
    by simp_all
qed

lemma recordAssociation_well_typed:
  assumes "well_typed s"
  shows "recordAssociation s from to assoc =
     (if references (origin_hash to) (stored_elems s (assoc_yek from)) then (Inr (), s)
      else if references (origin_hash from) (stored_elems s (assoc_yek to))
      then (Inl (AssociationInconsistent (origin_hash from) (origin_hash to)), s)
      else store_set s
             [(assoc_yek from,
               push_assoc (orEmpty (store_get s (assoc_yek from)))
                 \<lparr>direction = DirTo, other = to, association = assoc\<rparr> (stored_elems s (assoc_yek from))),
              (assoc_yek to,
               push_assoc (orEmpty (store_get s (assoc_yek to)))
                 \<lparr>direction = DirFrom, other = from, association = assoc\<rparr> (stored_elems s (assoc_yek to)))])"
  using assoc_bucket_well_typed [OF assms, of "from"] assoc_bucket_well_typed [OF assms, of to]
  by (simp add: recordAssociation_def Let_def every_other_differs_assoc flip: assoc_yek_def)

text \<open>
  C4, as the code has it. The consistency check of \<^verbatim>\<open>recordAssociation\<close> fires in the
  mirrored situation: when the bucket of \<^verbatim>\<open>from\<close> has no entry for \<^verbatim>\<open>to\<close> while the
  bucket of \<^verbatim>\<open>to\<close> has one for \<^verbatim>\<open>from\<close>. The call then fails with an error that carries
  both origin hashes, and the substrate is left as it was: nothing is written, nothing
  is repaired.
\<close>

theorem recordAssociation_inconsistent:
  assumes "well_typed s"
    and "\<not> references (origin_hash to) (stored_elems s (assoc_yek from))"
    and "references (origin_hash from) (stored_elems s (assoc_yek to))"
  shows "recordAssociation s from to assoc
           = (Inl (AssociationInconsistent (origin_hash from) (origin_hash to)), s)"
  using assms by (simp add: recordAssociation_well_typed)

lemma single_record_store:
  assumes "yek_kind y0 = kind l0"
  shows "store_get (snd (store_set empty_store [(y0, l0)])) y = (if y = y0 then Some l0 else None)"
proof -
  have "store_set empty_store [(y0, l0)] = (Inr (), substrate_set empty_store (to_records [(y0, l0)]))"
    using assms by (intro store_set_ok) simp_all
  then have set: "store_set empty_store [(y0, l0)] = (Inr (), snd (store_set empty_store [(y0, l0)]))"
    by simp
  show ?thesis
  proof (cases "y = y0")
    case True
    then show ?thesis using store_get_after_set_in [OF set, of y0 l0] by simp
  next
    case False
    then show ?thesis using store_get_after_set_notin [OF set, of y]
      by (simp add: store_get_def empty_store_def)
  qed
qed

lemma single_record_store_well_typed:
  assumes "lav_ok y0 l0"
  shows "well_typed (snd (store_set empty_store [(y0, l0)]))"
  using well_typed_set [OF well_typed_empty, of "[(y0, l0)]" "fst (store_set empty_store [(y0, l0)])"
                          "snd (store_set empty_store [(y0, l0)])"] assms
  by simp

lemma mirror_only_store_get:
  "store_get mirror_only_store y
     = (if y = assoc_yek origin_b
        then Some (arr_lav K_origin_to_ext_assoc
                     [AssocE \<lparr>direction = DirFrom, other = origin_a, association = ''t''\<rparr>])
        else None)"
  unfolding mirror_only_store_def
  by (rule single_record_store) (simp add: assoc_yek_def arr_lav_def)

lemma mirror_only_store_well_typed: "well_typed mirror_only_store"
  unfolding mirror_only_store_def
  by (rule single_record_store_well_typed) (simp add: lav_ok_arr assoc_yek_def is_array_kind_def)

theorem recordAssociation_inconsistent_witness:
  "recordAssociation mirror_only_store origin_a origin_b ''t''
     = (Inl (AssociationInconsistent 1 2), mirror_only_store)"
  using recordAssociation_inconsistent [OF mirror_only_store_well_typed, of origin_b origin_a "''t''"]
  by (simp add: stored_elems_def mirror_only_store_get references_def arr_lav_def
                assoc_yek_def origin_a_def origin_b_def)

lemma one_sided_store_get:
  "store_get one_sided_store y
     = (if y = assoc_yek origin_a
        then Some (arr_lav K_origin_to_ext_assoc
                     [AssocE \<lparr>direction = DirTo, other = origin_b, association = ''t''\<rparr>])
        else None)"
  unfolding one_sided_store_def
  by (rule single_record_store) (simp add: assoc_yek_def arr_lav_def)

lemma one_sided_store_well_typed: "well_typed one_sided_store"
  unfolding one_sided_store_def
  by (rule single_record_store_well_typed) (simp add: lav_ok_arr assoc_yek_def is_array_kind_def)

text \<open>
  C4, as stated, fails: with an entry for \<open>origin_b\<close> in the bucket of \<open>origin_a\<close> and
  none for \<open>origin_a\<close> in the bucket of \<open>origin_b\<close>, the call is taken for a repeated
  association and returns success.
\<close>

theorem one_sided_association_accepted_counterexample:
  "references (origin_hash origin_b) (stored_elems one_sided_store (assoc_yek origin_a))
   \<and> \<not> references (origin_hash origin_a) (stored_elems one_sided_store (assoc_yek origin_b))
   \<and> recordAssociation one_sided_store origin_a origin_b ''t'' = (Inr (), one_sided_store)"
  by (simp add: recordAssociation_well_typed [OF one_sided_store_well_typed]
                stored_elems_def one_sided_store_get references_def arr_lav_def
                assoc_yek_def origin_a_def origin_b_def)


lemma mapE_assoc_of_elem:
  "list_all (elem_ok K_origin_to_ext_assoc) xs \<Longrightarrow>
   mapE assoc_of_elem xs = Inr (List.map_filter (\<lambda>x. case x of AssocE a \<Rightarrow> Some a | _ \<Rightarrow> None) xs)"
proof (induction xs)
  case Nil
  then show ?case by (simp add: List.map_filter_simps)
next
  case (Cons x xs)
  then show ?case by (cases x) (simp_all add: List.map_filter_simps assoc_of_elem_def)
qed

lemma nids_of_lav_well_typed:
  assumes "lav_ok (OriginToNidYek k) lav"
  shows "\<exists>ns. nids_of_lav lav = Inr ns"
proof -
  from assms obtain xs where xs: "lav_value lav = ArrV xs" "list_all (elem_ok K_origin_to_nid) xs"
    by (cases "lav_value lav") (auto simp: lav_ok_def is_array_kind_def)
  have "\<exists>ns. mapE nid_of_elem xs = Inr ns"
  proof (rule mapE_total)
    fix x assume "x \<in> set xs"
    with xs(2) have "elem_ok K_origin_to_nid x" by (simp add: list_all_iff)
    then show "\<exists>y. nid_of_elem x = Inr y" by (cases x) (simp_all add: nid_of_elem_def)
  qed
  with xs(1) show ?thesis by (simp add: nids_of_lav_def)
qed

lemma fill_originToNids_well_typed:
  assumes "well_typed s"
    and "\<forall>(y, l) \<in> set yls. (\<exists>k. y = OriginToNidYek k) \<and> store_get s y = Some l"
  shows "\<exists>m'. fill_originToNids m yls = Inr m'"
  using assms(2)
proof (induction yls arbitrary: m)
  case Nil
  then show ?case by simp
next
  case (Cons yl yls)
  obtain y l where yl: "yl = (y, l)" by (cases yl)
  with Cons.prems obtain k where k: "y = OriginToNidYek k" and got: "store_get s y = Some l"
    by auto
  with assms(1) have "lav_ok (OriginToNidYek k) l" by (simp add: well_typed_def)
  then obtain ns where ns: "nids_of_lav l = Inr ns" using nids_of_lav_well_typed by blast
  from Cons.prems have tail: "\<forall>(y, l) \<in> set yls. (\<exists>k. y = OriginToNidYek k) \<and> store_get s y = Some l"
    by simp
  from Cons.IH [OF tail] obtain m' where
    "fill_originToNids (m(origin_hash k \<mapsto> ns)) yls = Inr m'"
    by blast
  with yl k ns show ?case by simp
qed

lemma getAssociations_well_typed:
  assumes "well_typed s"
  shows "\<exists>m. getAssociations s origin
           = Inr \<lparr>resp_from = map (enrich_from m origin)
                                (filter (\<lambda>a. direction a = DirFrom) (stored_assocs s origin)),
                  resp_to = map (enrich_to m origin)
                              (filter (\<lambda>a. direction a = DirTo) (stored_assocs s origin))\<rparr>"
proof -
  have read: "(case store_get s (OriginToExtAssociationYek origin) of
                 None \<Rightarrow> Inr []
               | Some lav \<Rightarrow> (case lav_value lav of ArrV xs \<Rightarrow> mapE assoc_of_elem xs | _ \<Rightarrow> Inl IllTyped))
              = Inr (stored_assocs s origin)"
  proof (cases "store_get s (OriginToExtAssociationYek origin)")
    case None
    then show ?thesis
      by (simp add: stored_assocs_def stored_elems_def assoc_yek_def List.map_filter_simps)
  next
    case (Some lav)
    with assms have "lav_ok (OriginToExtAssociationYek origin) lav" by (simp add: well_typed_def)
    then obtain xs where xs: "lav_value lav = ArrV xs" "list_all (elem_ok K_origin_to_ext_assoc) xs"
      by (cases "lav_value lav") (auto simp: lav_ok_def is_array_kind_def)
    with Some mapE_assoc_of_elem [OF xs(2)] show ?thesis
      by (simp add: stored_assocs_def stored_elems_def assoc_yek_def)
  qed
  show ?thesis
  proof (cases "stored_assocs s origin = []")
    case True
    with read show ?thesis by (simp add: getAssociations_def)
  next
    case False
    let ?yeks = "map (\<lambda>v. OriginToNidYek (other v)) (stored_assocs s origin) @ [OriginToNidYek origin]"
    have "\<forall>(y, l) \<in> set (store_get_batch s ?yeks). (\<exists>k. y = OriginToNidYek k) \<and> store_get s y = Some l"
      by (auto simp: store_get_batch_mem)
    from fill_originToNids_well_typed [OF assms this] obtain m where
      "fill_originToNids (\<lambda>h. None) (store_get_batch s ?yeks) = Inr m"
      by blast
    with read False have "getAssociations s origin
           = Inr \<lparr>resp_from = map (enrich_from m origin)
                                (filter (\<lambda>a. direction a = DirFrom) (stored_assocs s origin)),
                  resp_to = map (enrich_to m origin)
                              (filter (\<lambda>a. direction a = DirTo) (stored_assocs s origin))\<rparr>"
      by (simp add: getAssociations_def Let_def)
    then show ?thesis by (intro exI [of _ m])
  qed
qed

lemma recordAssociation_fresh:
  assumes wt: "well_typed s" and ne: "from \<noteq> to"
    and n1: "\<not> references (origin_hash to) (stored_elems s (assoc_yek from))"
    and n2: "\<not> references (origin_hash from) (stored_elems s (assoc_yek to))"
  shows "\<exists>s1. recordAssociation s from to assoc = (Inr (), s1) \<and> well_typed s1
           \<and> stored_elems s1 (assoc_yek from)
               = stored_elems s (assoc_yek from)
                 @ [AssocE \<lparr>direction = DirTo, other = to, association = assoc\<rparr>]
           \<and> stored_elems s1 (assoc_yek to)
               = stored_elems s (assoc_yek to)
                 @ [AssocE \<lparr>direction = DirFrom, other = from, association = assoc\<rparr>]
           \<and> calls s1 \<noteq> calls s"
proof -
  let ?l1 = "push_assoc (orEmpty (store_get s (assoc_yek from)))
                 \<lparr>direction = DirTo, other = to, association = assoc\<rparr> (stored_elems s (assoc_yek from))"
  let ?l2 = "push_assoc (orEmpty (store_get s (assoc_yek to)))
                 \<lparr>direction = DirFrom, other = from, association = assoc\<rparr> (stored_elems s (assoc_yek to))"
  let ?items = "[(assoc_yek from, ?l1), (assoc_yek to, ?l2)]"
  note b1 = assoc_bucket_well_typed [OF wt, of "from"]
  note b2 = assoc_bucket_well_typed [OF wt, of to]
  have rec: "recordAssociation s from to assoc = store_set s ?items"
    using n1 n2 by (simp add: recordAssociation_well_typed [OF wt])
  have ok1: "lav_ok (assoc_yek from) ?l1" and ok2: "lav_ok (assoc_yek to) ?l2"
    using b1 b2 by (simp_all add: lav_ok_def push_assoc_def assoc_yek_def is_array_kind_def)
  have "distinct (map fst ?items)" using ne by (simp add: assoc_yek_def)
  moreover have "\<forall>(y, l) \<in> set ?items. yek_kind y = kind l"
    using ok1 ok2 by (simp add: lav_ok_def)
  ultimately have "store_set s ?items = (Inr (), substrate_set s (to_records ?items))"
    by (simp add: store_set_Inr)
  moreover define s1 where "s1 = substrate_set s (to_records ?items)"
  ultimately have set: "store_set s ?items = (Inr (), s1)" by simp
  have wt1: "well_typed s1"
    using well_typed_set [OF wt set] ok1 ok2 by simp
  have g1: "store_get s1 (assoc_yek from) = Some ?l1"
    using store_get_after_set_in [OF set, of "assoc_yek from" ?l1] by simp
  have g2: "store_get s1 (assoc_yek to) = Some ?l2"
    using store_get_after_set_in [OF set, of "assoc_yek to" ?l2] by simp
  have "stored_elems s1 (assoc_yek from)
          = stored_elems s (assoc_yek from) @ [AssocE \<lparr>direction = DirTo, other = to, association = assoc\<rparr>]"
    unfolding stored_elems_def [of s1] g1 by (simp add: push_assoc_def)
  moreover have "stored_elems s1 (assoc_yek to)
          = stored_elems s (assoc_yek to) @ [AssocE \<lparr>direction = DirFrom, other = from, association = assoc\<rparr>]"
    unfolding stored_elems_def [of s1] g2 by (simp add: push_assoc_def)
  moreover have "calls s1 \<noteq> calls s" by (simp add: s1_def substrate_set_def)
  ultimately show ?thesis using rec set wt1 by auto
qed

lemma count_refers_fresh:
  "\<not> references h xs \<Longrightarrow> refers_to h x \<Longrightarrow> length (filter (refers_to h) (xs @ [x])) = 1"
  by (simp add: references_def list_ex_iff filter_empty_conv)

text \<open>
  C3, as the code has it. On a well-typed store, for two different origins neither of
  whose buckets has an entry for the other yet: \<^verbatim>\<open>recordAssociation\<close> succeeds with one
  bulk write; afterwards \<^verbatim>\<open>getAssociations\<close> of the first origin lists the relationship
  under \<^verbatim>\<open>to\<close> and \<^verbatim>\<open>getAssociations\<close> of the second lists it under \<^verbatim>\<open>from\<close>, each with
  the first origin as the source end, the second as the target end and the recorded
  type; recording the same association again returns success and leaves the substrate
  as it is, so each bucket keeps exactly one entry for the other origin.
\<close>

theorem recordAssociation_symmetric:
  assumes "well_typed s" and "a \<noteq> b"
    and "\<not> references (origin_hash b) (stored_elems s (assoc_yek a))"
    and "\<not> references (origin_hash a) (stored_elems s (assoc_yek b))"
  shows "\<exists>s1. recordAssociation s a b ty = (Inr (), s1)
           \<and> (\<exists>ra. getAssociations s1 a = Inr ra
                 \<and> (\<exists>x \<in> set (resp_to ra).
                       end_origin_hash (assoc_from x) = origin_hash a
                       \<and> end_origin_hash (assoc_to x) = origin_hash b \<and> assoc_type x = ty))
           \<and> (\<exists>rb. getAssociations s1 b = Inr rb
                 \<and> (\<exists>x \<in> set (resp_from rb).
                       end_origin_hash (assoc_from x) = origin_hash a
                       \<and> end_origin_hash (assoc_to x) = origin_hash b \<and> assoc_type x = ty))
           \<and> recordAssociation s1 a b ty = (Inr (), s1)
           \<and> length (filter (refers_to (origin_hash b)) (stored_elems s1 (assoc_yek a))) = 1
           \<and> length (filter (refers_to (origin_hash a)) (stored_elems s1 (assoc_yek b))) = 1"
proof -
  let ?to = "\<lparr>direction = DirTo, other = b, association = ty\<rparr>"
  let ?from = "\<lparr>direction = DirFrom, other = a, association = ty\<rparr>"
  from recordAssociation_fresh [OF assms, of ty] obtain s1 where
    rec: "recordAssociation s a b ty = (Inr (), s1)" and wt1: "well_typed s1"
    and ea: "stored_elems s1 (assoc_yek a) = stored_elems s (assoc_yek a) @ [AssocE ?to]"
    and eb: "stored_elems s1 (assoc_yek b) = stored_elems s (assoc_yek b) @ [AssocE ?from]"
    by blast
  have sa: "?to \<in> set (filter (\<lambda>x. direction x = DirTo) (stored_assocs s1 a))"
    by (simp add: stored_assocs_def ea map_filter_append List.map_filter_simps)
  have sb: "?from \<in> set (filter (\<lambda>x. direction x = DirFrom) (stored_assocs s1 b))"
    by (simp add: stored_assocs_def eb map_filter_append List.map_filter_simps)
  from getAssociations_well_typed [OF wt1, of a] obtain ma where
    ga: "getAssociations s1 a
           = Inr \<lparr>resp_from = map (enrich_from ma a) (filter (\<lambda>x. direction x = DirFrom) (stored_assocs s1 a)),
                  resp_to = map (enrich_to ma a) (filter (\<lambda>x. direction x = DirTo) (stored_assocs s1 a))\<rparr>"
    by blast
  from getAssociations_well_typed [OF wt1, of b] obtain mb where
    gb: "getAssociations s1 b
           = Inr \<lparr>resp_from = map (enrich_from mb b) (filter (\<lambda>x. direction x = DirFrom) (stored_assocs s1 b)),
                  resp_to = map (enrich_to mb b) (filter (\<lambda>x. direction x = DirTo) (stored_assocs s1 b))\<rparr>"
    by blast
  have pa: "\<exists>ra. getAssociations s1 a = Inr ra
                 \<and> (\<exists>x \<in> set (resp_to ra).
                       end_origin_hash (assoc_from x) = origin_hash a
                       \<and> end_origin_hash (assoc_to x) = origin_hash b \<and> assoc_type x = ty)"
  proof (intro exI conjI bexI)
    show "getAssociations s1 a
           = Inr \<lparr>resp_from = map (enrich_from ma a) (filter (\<lambda>x. direction x = DirFrom) (stored_assocs s1 a)),
                  resp_to = map (enrich_to ma a) (filter (\<lambda>x. direction x = DirTo) (stored_assocs s1 a))\<rparr>"
      by (rule ga)
    show "enrich_to ma a ?to
            \<in> set (resp_to \<lparr>resp_from = map (enrich_from ma a) (filter (\<lambda>x. direction x = DirFrom) (stored_assocs s1 a)),
                  resp_to = map (enrich_to ma a) (filter (\<lambda>x. direction x = DirTo) (stored_assocs s1 a))\<rparr>)"
      using sa by simp
  qed (simp_all add: enrich_to_def makeAssociationEnd_def)
  have pb: "\<exists>rb. getAssociations s1 b = Inr rb
                 \<and> (\<exists>x \<in> set (resp_from rb).
                       end_origin_hash (assoc_from x) = origin_hash a
                       \<and> end_origin_hash (assoc_to x) = origin_hash b \<and> assoc_type x = ty)"
  proof (intro exI conjI bexI)
    show "getAssociations s1 b
           = Inr \<lparr>resp_from = map (enrich_from mb b) (filter (\<lambda>x. direction x = DirFrom) (stored_assocs s1 b)),
                  resp_to = map (enrich_to mb b) (filter (\<lambda>x. direction x = DirTo) (stored_assocs s1 b))\<rparr>"
      by (rule gb)
    show "enrich_from mb b ?from
            \<in> set (resp_from \<lparr>resp_from = map (enrich_from mb b) (filter (\<lambda>x. direction x = DirFrom) (stored_assocs s1 b)),
                  resp_to = map (enrich_to mb b) (filter (\<lambda>x. direction x = DirTo) (stored_assocs s1 b))\<rparr>)"
      using sb by simp
  qed (simp_all add: enrich_from_def makeAssociationEnd_def)
  have again: "recordAssociation s1 a b ty = (Inr (), s1)"
    by (simp add: recordAssociation_well_typed [OF wt1] ea references_def)
  have ca: "length (filter (refers_to (origin_hash b)) (stored_elems s1 (assoc_yek a))) = 1"
    unfolding ea using assms(3) by (intro count_refers_fresh) simp_all
  have cb: "length (filter (refers_to (origin_hash a)) (stored_elems s1 (assoc_yek b))) = 1"
    unfolding eb using assms(4) by (intro count_refers_fresh) simp_all
  from rec pa pb again ca cb show ?thesis by blast
qed

theorem recordAssociation_symmetric_witness:
  "\<exists>s1. recordAssociation empty_store origin_a origin_b ''t'' = (Inr (), s1)
           \<and> (\<exists>ra. getAssociations s1 origin_a = Inr ra
                 \<and> (\<exists>x \<in> set (resp_to ra).
                       end_origin_hash (assoc_from x) = 1
                       \<and> end_origin_hash (assoc_to x) = 2 \<and> assoc_type x = ''t''))
           \<and> (\<exists>rb. getAssociations s1 origin_b = Inr rb
                 \<and> (\<exists>x \<in> set (resp_from rb).
                       end_origin_hash (assoc_from x) = 1
                       \<and> end_origin_hash (assoc_to x) = 2 \<and> assoc_type x = ''t''))
           \<and> recordAssociation s1 origin_a origin_b ''t'' = (Inr (), s1)
           \<and> length (filter (refers_to 2) (stored_elems s1 (assoc_yek origin_a))) = 1
           \<and> length (filter (refers_to 1) (stored_elems s1 (assoc_yek origin_b))) = 1"
proof -
  have "origin_a \<noteq> origin_b" by (simp add: origin_a_def origin_b_def)
  moreover have "\<not> references (origin_hash origin_b) (stored_elems empty_store (assoc_yek origin_a))"
    and "\<not> references (origin_hash origin_a) (stored_elems empty_store (assoc_yek origin_b))"
    by (simp_all add: stored_elems_def store_get_def empty_store_def references_def)
  moreover have "origin_hash origin_a = 1" "origin_hash origin_b = 2"
    by (simp_all add: origin_a_def origin_b_def)
  ultimately show ?thesis
    using recordAssociation_symmetric [OF well_typed_empty, of origin_a origin_b "''t''"]
    by simp
qed


section \<open>Cascading delete\<close>

lemma mapE_edge_of_elem:
  "list_all (elem_ok K_nid_to_edge) xs \<Longrightarrow>
   mapE edge_of_elem xs = Inr (List.map_filter (\<lambda>x. case x of EdgeE e \<Rightarrow> Some e | _ \<Rightarrow> None) xs)
   \<and> xs = map EdgeE (List.map_filter (\<lambda>x. case x of EdgeE e \<Rightarrow> Some e | _ \<Rightarrow> None) xs)"
proof (induction xs)
  case Nil
  then show ?case by (simp add: List.map_filter_simps)
next
  case (Cons x xs)
  then show ?case by (cases x) (simp_all add: List.map_filter_simps edge_of_elem_def)
qed

lemma edge_bucket_well_typed:
  assumes "well_typed s"
  shows "list_all (elem_ok K_nid_to_edge) (stored_elems s (NidToEdgeYek n))"
proof (cases "store_get s (NidToEdgeYek n)")
  case None
  then show ?thesis by (simp add: stored_elems_def)
next
  case (Some lav)
  with assms have "lav_ok (NidToEdgeYek n) lav" by (simp add: well_typed_def)
  with Some show ?thesis
    by (cases "lav_value lav") (auto simp: lav_ok_def stored_elems_def)
qed

lemma edges_of_well_typed:
  assumes "well_typed s"
  shows "edges_of (store_get s (NidToEdgeYek n)) = Inr (stored_edges s n)"
    and "stored_elems s (NidToEdgeYek n) = map EdgeE (stored_edges s n)"
proof -
  note ok = edge_bucket_well_typed [OF assms, of n]
  show "stored_elems s (NidToEdgeYek n) = map EdgeE (stored_edges s n)"
    using mapE_edge_of_elem [OF ok] by (simp add: stored_edges_def)
  show "edges_of (store_get s (NidToEdgeYek n)) = Inr (stored_edges s n)"
  proof (cases "store_get s (NidToEdgeYek n)")
    case None
    then show ?thesis
      by (simp add: edges_of_def stored_edges_def stored_elems_def List.map_filter_simps)
  next
    case (Some lav)
    with assms have "lav_ok (NidToEdgeYek n) lav" by (simp add: well_typed_def)
    then obtain xs where xs: "lav_value lav = ArrV xs"
      by (cases "lav_value lav") (auto simp: lav_ok_def is_array_kind_def)
    with Some have "xs = stored_elems s (NidToEdgeYek n)" by (simp add: stored_elems_def)
    with Some xs mapE_edge_of_elem [OF ok] show ?thesis
      by (simp add: edges_of_def stored_edges_def)
  qed
qed

lemma prepareRemoval_item:
  assumes "well_typed s" and "is_array_kind (yek_kind yek)"
  shows "prepareRemoval s yek criteria = Inr (removal_item s yek criteria)"
    and "lav_ok yek (snd (removal_item s yek criteria))"
  using prepareRemoval_well_typed [OF assms, of criteria]
  by (simp_all add: removal_item_def)

lemma prepareNodeRemoval_single:
  assumes "well_typed s"
  shows "prepareNodeRemoval s [n]
           = Inr ([NidToNodeYek n, NidToEdgeYek n, NidToNodeSimilaritySearchInfoYek n], removal_batch s n)"
proof -
  have linked: "linked_removals s n
                  = Inr (map (\<lambda>linkedNid. removal_item s (NidToEdgeYek linkedNid) [n]) (linked_nids s n))"
    using edges_of_well_typed(1) [OF assms, of n]
          mapE_Inr_map [of "linked_nids s n" "\<lambda>linkedNid. prepareRemoval s (NidToEdgeYek linkedNid) [n]"
                           "\<lambda>linkedNid. removal_item s (NidToEdgeYek linkedNid) [n]"]
          prepareRemoval_item(1) [OF assms]
    by (simp add: linked_removals_def linked_nids_def Let_def is_array_kind_def)
  have all: "prepareRemoval s AllNidsYek [n] = Inr (removal_item s AllNidsYek [n])"
    using prepareRemoval_item(1) [OF assms, of AllNidsYek] by (simp add: is_array_kind_def)
  have origin: "origin_removal s n
                  = Inr (case node_origin s n of None \<Rightarrow> []
                         | Some origin \<Rightarrow> [removal_item s (OriginToNidYek origin) [n]])"
  proof (cases "node_origin s n")
    case None
    then show ?thesis by (simp add: origin_removal_def)
  next
    case (Some origin)
    then show ?thesis
      using prepareRemoval_item(1) [OF assms, of "OriginToNidYek origin"]
      by (simp add: origin_removal_def is_array_kind_def)
  qed
  show ?thesis
    by (simp add: prepareNodeRemoval_def linked all origin removal_batch_def)
qed

lemma removal_batch_ok:
  assumes "well_typed s"
  shows "\<forall>(y, l) \<in> set (removal_batch s n). lav_ok y l"
proof -
  have item: "\<And>yek c. is_array_kind (yek_kind yek) \<Longrightarrow> case removal_item s yek c of (y, l) \<Rightarrow> lav_ok y l"
    using prepareRemoval_item(2) [OF assms] by (simp add: removal_item_def)
  have batch: "\<forall>r \<in> set (removal_batch s n). \<exists>yek c. r = removal_item s yek c \<and> is_array_kind (yek_kind yek)"
    by (auto simp: removal_batch_def is_array_kind_def split: option.splits)
  show ?thesis
  proof (intro ballI)
    fix r assume "r \<in> set (removal_batch s n)"
    with batch obtain yek c where "r = removal_item s yek c" "is_array_kind (yek_kind yek)"
      by blast
    with item [of yek c] show "case r of (y, l) \<Rightarrow> lav_ok y l" by simp
  qed
qed

lemma fst_removal_batch:
  "map fst (removal_batch s n)
     = map NidToEdgeYek (linked_nids s n) @ [AllNidsYek]
       @ (case node_origin s n of None \<Rightarrow> [] | Some origin \<Rightarrow> [OriginToNidYek origin])"
  by (simp add: removal_batch_def removal_item_def comp_def split: option.splits)

lemma deleteNode_well_typed_eq:
  assumes "well_typed s"
  shows "deleteNode s n
           = store_set (store_remove s [NidToNodeYek n, NidToEdgeYek n, NidToNodeSimilaritySearchInfoYek n])
                       (removal_batch s n)"
  by (simp add: deleteNode_def prepareNodeRemoval_single [OF assms])

lemma deleteNode_succeeds:
  assumes "well_typed s" and "distinct (linked_nids s n)"
  shows "\<exists>s'. deleteNode s n = (Inr (), s') \<and> well_typed s'"
proof -
  let ?s0 = "store_remove s [NidToNodeYek n, NidToEdgeYek n, NidToNodeSimilaritySearchInfoYek n]"
  have ok: "\<forall>(y, l) \<in> set (removal_batch s n). lav_ok y l"
    by (rule removal_batch_ok [OF assms(1)])
  then have kinds: "\<forall>(y, l) \<in> set (removal_batch s n). yek_kind y = kind l"
    by (auto simp: lav_ok_def)
  have "distinct (map fst (removal_batch s n))"
    using assms(2) by (auto simp: fst_removal_batch distinct_map inj_on_def split: option.splits)
  with kinds have set: "store_set ?s0 (removal_batch s n)
                          = (Inr (), substrate_set ?s0 (to_records (removal_batch s n)))"
    by (simp add: store_set_Inr)
  from well_typed_set [OF well_typed_remove [OF assms(1)] set ok] set show ?thesis
    by (auto simp: deleteNode_well_typed_eq [OF assms(1)])
qed

lemma deleteNode_effect:
  assumes wt: "well_typed s" and del: "deleteNode s n = (Inr (), s')"
  shows "well_typed s'"
    and "store_get s' (NidToNodeYek n) = None"
    and "stored_elems s' AllNidsYek = filter (\<lambda>x. \<not> matches_nid [n] x) (stored_elems s AllNidsYek)"
    and "m \<in> set (linked_nids s n) \<Longrightarrow>
           stored_elems s' (NidToEdgeYek m)
             = filter (\<lambda>x. \<not> matches_edge [n] x) (stored_elems s (NidToEdgeYek m))"
proof -
  let ?s0 = "store_remove s [NidToNodeYek n, NidToEdgeYek n, NidToNodeSimilaritySearchInfoYek n]"
  from del have set: "store_set ?s0 (removal_batch s n) = (Inr (), s')"
    by (simp add: deleteNode_well_typed_eq [OF wt])
  show "well_typed s'"
    using well_typed_set [OF well_typed_remove [OF wt] set removal_batch_ok [OF wt]] .
  have "NidToNodeYek n \<notin> set (map fst (removal_batch s n))"
    by (auto simp: fst_removal_batch split: option.splits)
  then have "NidToNodeYek n \<notin> fst ` set (removal_batch s n)" by simp
  from store_get_after_set_notin [OF set this]
  show "store_get s' (NidToNodeYek n) = None"
    by (simp add: store_get_after_remove)
  have "removal_item s AllNidsYek [n] \<in> set (removal_batch s n)"
    by (simp add: removal_batch_def)
  then have "store_get s' AllNidsYek = Some (snd (removal_item s AllNidsYek [n]))"
    using store_get_after_set_in [OF set, of AllNidsYek "snd (removal_item s AllNidsYek [n])"]
    by (simp add: removal_item_def)
  then show "stored_elems s' AllNidsYek = filter (\<lambda>x. \<not> matches_nid [n] x) (stored_elems s AllNidsYek)"
    by (simp add: stored_elems_def [of s'] removal_item_def arr_lav_def removal_result_def)
  assume "m \<in> set (linked_nids s n)"
  then have "removal_item s (NidToEdgeYek m) [n] \<in> set (removal_batch s n)"
    by (simp add: removal_batch_def)
  then have "store_get s' (NidToEdgeYek m) = Some (snd (removal_item s (NidToEdgeYek m) [n]))"
    using store_get_after_set_in [OF set, of "NidToEdgeYek m" "snd (removal_item s (NidToEdgeYek m) [n])"]
    by (simp add: removal_item_def)
  then show "stored_elems s' (NidToEdgeYek m)
             = filter (\<lambda>x. \<not> matches_edge [n] x) (stored_elems s (NidToEdgeYek m))"
    by (simp add: stored_elems_def [of s'] removal_item_def arr_lav_def removal_result_def)
qed


lemma mapE_mem:
  "mapE f xs = Inr rs \<Longrightarrow> x \<in> set xs \<Longrightarrow> \<exists>r \<in> set rs. f x = Inr r"
  by (auto simp: mapE_eq_Inr list_all2_conv_all_nth in_set_conv_nth)

lemma edge_records_from_mem:
  assumes "edge_records s new_eid node args = Inr rs"
    and "edge \<in> set (new_from_edges new_eid node (orElse (arg_from_nid args) []))"
  shows "(NidToEdgeYek (from_nid edge),
          arr_lav K_nid_to_edge (stored_elems s (NidToEdgeYek (from_nid edge)) @ [EdgeE edge])) \<in> set rs"
proof -
  let ?fs = "new_from_edges new_eid node (orElse (arg_from_nid args) [])"
  let ?ts = "new_to_edges new_eid node (length (orElse (arg_from_nid args) [])) (orElse (arg_to_nid args) [])"
  from assms(2) have "orElse (arg_from_nid args) [] \<noteq> []" by (auto simp: new_from_edges_def)
  with assms(1) obtain frs trs where
    frs: "mapE (\<lambda>edge. prepareAppend s (NidToEdgeYek (from_nid edge)) (arr_lav K_nid_to_edge [EdgeE edge])) ?fs = Inr frs"
    and rs: "rs = (NidToEdgeYek (nid node), arr_lav K_nid_to_edge (map EdgeE (?fs @ ?ts))) # frs @ trs"
    by (auto simp: edge_records_def Let_def bindE_eq_Inr)
  from mapE_mem [OF frs assms(2)] obtain r where
    r: "r \<in> set frs" "prepareAppend s (NidToEdgeYek (from_nid edge)) (arr_lav K_nid_to_edge [EdgeE edge]) = Inr r"
    by blast
  from prepareAppend_Inr [OF r(2)] r(1) rs show ?thesis by simp
qed

lemma createNode_records_edges:
  assumes "createNode_records s new_eid node args = Inr records"
  shows "\<exists>es. edge_records s new_eid node args = Inr es \<and> set es \<subseteq> set records"
  using assms by (auto simp: createNode_records_def bindE_eq_Inr)

lemma createNode_from_bucket:
  assumes "createNode n new_eid now s args = (Inr n', s')"
    and "edge \<in> set (new_from_edges new_eid (new_node n now args) (orElse (arg_from_nid args) []))"
  shows "stored_elems s' (NidToEdgeYek (from_nid edge))
           = stored_elems s (NidToEdgeYek (from_nid edge)) @ [EdgeE edge]"
proof -
  from assms(1) obtain records where
    rs: "createNode_records s new_eid (new_node n now args) args = Inr records"
    and set: "store_set s records = (Inr (), s')"
    by (auto simp: createNode_Inr)
  from createNode_records_edges [OF rs] obtain es where
    es: "edge_records s new_eid (new_node n now args) args = Inr es"
    and sub: "set es \<subseteq> set records"
    by blast
  from edge_records_from_mem [OF es assms(2)] sub store_get_after_set_in [OF set]
  have "store_get s' (NidToEdgeYek (from_nid edge))
          = Some (arr_lav K_nid_to_edge (stored_elems s (NidToEdgeYek (from_nid edge)) @ [EdgeE edge]))"
    by blast
  then show ?thesis by (simp add: stored_elems_def [of s'] arr_lav_def)
qed

lemma createNode_store_get_other:
  assumes "createNode n new_eid now s args = (Inr n', s')" and "y \<notin> set (createNode_yeks n args)"
  shows "store_get s' y = store_get s y"
proof -
  from assms(1) obtain records where
    rs: "createNode_records s new_eid (new_node n now args) args = Inr records"
    and set: "store_set s records = (Inr (), s')"
    by (auto simp: createNode_Inr)
  have "fst ` set records = set (createNode_yeks n args)"
    using createNode_records_Inr(1) [OF rs] by (metis list.set_map nid_new_node)
  with assms(2) store_get_after_set_notin [OF set] show ?thesis by simp
qed

lemma createEdge_buckets:
  assumes "createEdge new_eid now s a b = (Inr edge, s')"
  shows "edge = \<lparr>eid = new_eid, from_nid = a, to_nid = b, crtd = now, upd = now, is_sticky = False\<rparr>"
    and "stored_elems s' (NidToEdgeYek a) = stored_elems s (NidToEdgeYek a) @ [EdgeE edge]"
    and "stored_elems s' (NidToEdgeYek b) = stored_elems s (NidToEdgeYek b) @ [EdgeE edge]"
proof -
  let ?e = "\<lparr>eid = new_eid, from_nid = a, to_nid = b, crtd = now, upd = now, is_sticky = False\<rparr>"
  from assms obtain r1 r2 where
    r1: "prepareAppend s (NidToEdgeYek a) (arr_lav K_nid_to_edge [EdgeE ?e]) = Inr r1"
    and r2: "prepareAppend s (NidToEdgeYek b) (arr_lav K_nid_to_edge [EdgeE ?e]) = Inr r2"
    and set: "store_set s [r1, r2] = (Inr (), s')" and e: "edge = ?e"
    by (auto simp: createEdge_def Let_def bindE_eq_Inr split: sum.splits prod.splits)
  show "edge = ?e" by (rule e)
  from prepareAppend_Inr [OF r1] store_get_after_set_in [OF set, of "fst r1" "snd r1"]
  have "store_get s' (NidToEdgeYek a) = Some (arr_lav K_nid_to_edge (stored_elems s (NidToEdgeYek a) @ [EdgeE ?e]))"
    by simp
  then show "stored_elems s' (NidToEdgeYek a) = stored_elems s (NidToEdgeYek a) @ [EdgeE edge]"
    by (simp add: stored_elems_def [of s'] arr_lav_def e)
  from prepareAppend_Inr [OF r2] store_get_after_set_in [OF set, of "fst r2" "snd r2"]
  have "store_get s' (NidToEdgeYek b) = Some (arr_lav K_nid_to_edge (stored_elems s (NidToEdgeYek b) @ [EdgeE ?e]))"
    by simp
  then show "stored_elems s' (NidToEdgeYek b) = stored_elems s (NidToEdgeYek b) @ [EdgeE edge]"
    by (simp add: stored_elems_def [of s'] arr_lav_def e)
qed

lemma listed_tags_mem:
  assumes "well_typed s" and "t \<in> set (listed_tags s)"
  shows "TagE t \<in> set (stored_elems s AllNidsYek)"
  using stored_elems_all_nids [OF assms(1)] assms(2) by simp

text \<open>
  The cascade when \<^verbatim>\<open>deleteNode\<close> completes on a store in which the adjacency bucket of
  \<open>a\<close> still holds an edge from \<open>a\<close> to \<open>b\<close>: the bucket of \<open>b\<close> is left without any edge
  that has \<open>a\<close> at either end, \<^verbatim>\<open>getAllNids\<close> is left without \<open>a\<close>, and \<^verbatim>\<open>getNode\<close> of \<open>a\<close>
  fails with the not-found error.
\<close>

theorem deleteNode_cascade:
  assumes "well_typed s"
    and "EdgeE e \<in> set (stored_elems s (NidToEdgeYek a))" and "from_nid e = a" and "to_nid e = b"
    and "deleteNode s a = (Inr (), s')"
  shows "(\<exists>es. edges_of (store_get s' (NidToEdgeYek b)) = Inr es
               \<and> (\<forall>e' \<in> set es. from_nid e' \<noteq> a \<and> to_nid e' \<noteq> a))
         \<and> (\<exists>ids. getAllNids s' = Inr ids \<and> a \<notin> set ids)
         \<and> getNode fromJson s' a = Inl (NodeNotFound a)"
proof -
  note eff = deleteNode_effect [OF assms(1,5)]
  have wt': "well_typed s'" by (rule eff(1))
  from assms(2) have "e \<in> set (stored_edges s a)"
    using edges_of_well_typed(2) [OF assms(1), of a] by auto
  with assms(3,4) have "b \<in> set (linked_nids s a)"
    by (force simp: linked_nids_def)
  from eff(4) [OF this]
  have bucket: "stored_elems s' (NidToEdgeYek b) = filter (\<lambda>x. \<not> matches_edge [a] x) (stored_elems s (NidToEdgeYek b))" .
  have "\<forall>e' \<in> set (stored_edges s' b). from_nid e' \<noteq> a \<and> to_nid e' \<noteq> a"
  proof
    fix e' assume "e' \<in> set (stored_edges s' b)"
    then have "EdgeE e' \<in> set (stored_elems s' (NidToEdgeYek b))"
      using edges_of_well_typed(2) [OF wt', of b] by simp
    with bucket have "\<not> matches_edge [a] (EdgeE e')" by simp
    then show "from_nid e' \<noteq> a \<and> to_nid e' \<noteq> a" by simp
  qed
  with edges_of_well_typed(1) [OF wt', of b]
  have p1: "\<exists>es. edges_of (store_get s' (NidToEdgeYek b)) = Inr es
               \<and> (\<forall>e' \<in> set es. from_nid e' \<noteq> a \<and> to_nid e' \<noteq> a)"
    by blast
  have "a \<notin> tag_nid ` set (listed_tags s')"
  proof
    assume "a \<in> tag_nid ` set (listed_tags s')"
    then obtain t where t: "t \<in> set (listed_tags s')" "tag_nid t = a" by auto
    from listed_tags_mem [OF wt' t(1)] eff(3) have "\<not> matches_nid [a] (TagE t)" by simp
    with t(2) show False by simp
  qed
  with getAllNids_well_typed [OF wt']
  have p2: "\<exists>ids. getAllNids s' = Inr ids \<and> a \<notin> set ids" by simp
  have p3: "getNode fromJson s' a = Inl (NodeNotFound a)"
    by (simp add: getNode_def eff(2))
  from p1 p2 p3 show ?thesis by blast
qed


lemma store_one_no_edges: "stored_elems store_one (NidToEdgeYek m) = []"
proof -
  have "store_get store_one (NidToEdgeYek m) = store_get empty_store (NidToEdgeYek m)"
    by (rule createNode_store_get_other [OF store_one_created(1)])
       (simp add: createNode_yeks_def args_plain_def neighbours_def orElse_def)
  then show ?thesis by (simp add: stored_elems_def store_get_def empty_store_def)
qed

lemma store_linked_created:
  "createNode ''n2'' eid_numbered 8 store_one (args_linked [''n1''] []) = (Inr ''n2'', store_linked)"
  "well_typed store_linked"
proof -
  have "distinct (''n2'' # neighbours (args_linked [''n1''] []))"
    by (simp add: neighbours_def args_linked_def orElse_def)
  from createNode_succeeds [OF store_one_created(2) this, of eid_numbered 8]
  show "createNode ''n2'' eid_numbered 8 store_one (args_linked [''n1''] []) = (Inr ''n2'', store_linked)"
    "well_typed store_linked"
    by (auto simp: store_linked_def)
qed

lemma store_linked_bucket: "stored_elems store_linked (NidToEdgeYek ''n1'') = [EdgeE edge_n1_n2]"
proof -
  have "edge_n1_n2 \<in> set (new_from_edges eid_numbered (new_node ''n2'' 8 (args_linked [''n1''] []))
                           (orElse (arg_from_nid (args_linked [''n1''] [])) []))"
    by (simp add: new_from_edges_def new_node_def edge_n1_n2_def args_linked_def args_plain_def
                  orElse_def Let_def)
  from createNode_from_bucket [OF store_linked_created(1) this] show ?thesis
    by (simp add: edge_n1_n2_def store_one_no_edges)
qed

lemma store_deleted_done:
  "deleteNode store_linked ''n1'' = (Inr (), store_deleted)"
proof -
  have "stored_edges store_linked ''n1'' = [edge_n1_n2]"
    by (simp add: stored_edges_def store_linked_bucket List.map_filter_simps)
  then have "distinct (linked_nids store_linked ''n1'')"
    by (simp add: linked_nids_def)
  from deleteNode_succeeds [OF store_linked_created(2) this] show ?thesis
    by (auto simp: store_deleted_def)
qed

theorem deleteNode_cascade_witness:
  "deleteNode store_linked ''n1'' = (Inr (), store_deleted)
   \<and> (\<exists>es. edges_of (store_get store_deleted (NidToEdgeYek ''n2'')) = Inr es
            \<and> (\<forall>e' \<in> set es. from_nid e' \<noteq> ''n1'' \<and> to_nid e' \<noteq> ''n1''))
   \<and> (\<exists>ids. getAllNids store_deleted = Inr ids \<and> ''n1'' \<notin> set ids)
   \<and> getNode (\<lambda>n. n) store_deleted ''n1'' = Inl (NodeNotFound ''n1'')"
proof -
  have "EdgeE edge_n1_n2 \<in> set (stored_elems store_linked (NidToEdgeYek ''n1''))"
    by (simp add: store_linked_bucket)
  moreover have "from_nid edge_n1_n2 = ''n1''" "to_nid edge_n1_n2 = ''n2''"
    by (simp_all add: edge_n1_n2_def)
  ultimately show ?thesis
    using deleteNode_cascade [OF store_linked_created(2) _ _ _ store_deleted_done, of edge_n1_n2 "''n2''" "\<lambda>n. n"]
          store_deleted_done
    by simp
qed

section \<open>The iterator\<close>

lemma Iterator_next_well_typed:
  assumes "well_typed s"
  shows "Iterator_next fromJson s it =
     (if it_index it \<ge> length (it_nids it) then (Inr None, it)
      else case stored_node s (it_nids it ! it_index it) of
             None \<Rightarrow> (Inl (IteratorNodeNotFound (it_nids it ! it_index it)), it)
           | Some node \<Rightarrow> (Inr (Some (fromJson node)), it\<lparr>it_index := it_index it + 1\<rparr>))"
proof (cases "store_get s (NidToNodeYek (it_nids it ! it_index it))")
  case None
  then show ?thesis by (simp add: Iterator_next_def Let_def stored_node_def)
next
  case (Some lav)
  with assms have "lav_ok (NidToNodeYek (it_nids it ! it_index it)) lav" by (simp add: well_typed_def)
  then obtain node where "lav_value lav = NodeV node"
    by (cases "lav_value lav") (auto simp: lav_ok_def is_array_kind_def)
  with Some show ?thesis
    by (simp add: Iterator_next_def Let_def stored_node_def node_of_lav_def)
qed

text \<open>
  C9, as the code has it. The iterator holds the ids listed when it was built and a
  position. On a well-typed store \<^verbatim>\<open>next\<close> returns the end marker once the position has
  reached the end of the id list; before that it reads the record stored now under the
  id at the position: if there is none (the node has been deleted since) it fails with
  the not-found error and stays where it is, otherwise it yields that record and moves
  on. The id list never changes, so every node yielded has an id of the list and a node
  created later, under a new id, is never yielded.
\<close>

theorem Iterator_next_snapshot:
  assumes "well_typed s"
  shows "Iterator_next fromJson s it =
           (if it_index it \<ge> length (it_nids it) then (Inr None, it)
            else case stored_node s (it_nids it ! it_index it) of
                   None \<Rightarrow> (Inl (IteratorNodeNotFound (it_nids it ! it_index it)), it)
                 | Some node \<Rightarrow> (Inr (Some (fromJson node)), it\<lparr>it_index := it_index it + 1\<rparr>))
         \<and> it_nids (snd (Iterator_next fromJson s it)) = it_nids it
         \<and> (\<forall>v it'. Iterator_next fromJson s it = (Inr (Some v), it')
              \<longrightarrow> (\<exists>n \<in> set (it_nids it). \<exists>node. stored_node s n = Some node \<and> v = fromJson node))"
proof (intro conjI allI impI)
  show "Iterator_next fromJson s it =
           (if it_index it \<ge> length (it_nids it) then (Inr None, it)
            else case stored_node s (it_nids it ! it_index it) of
                   None \<Rightarrow> (Inl (IteratorNodeNotFound (it_nids it ! it_index it)), it)
                 | Some node \<Rightarrow> (Inr (Some (fromJson node)), it\<lparr>it_index := it_index it + 1\<rparr>))"
    by (rule Iterator_next_well_typed [OF assms])
  show "it_nids (snd (Iterator_next fromJson s it)) = it_nids it"
    by (simp add: Iterator_next_well_typed [OF assms] split: option.splits)
next
  fix v it'
  assume "Iterator_next fromJson s it = (Inr (Some v), it')"
  then have "it_index it < length (it_nids it)
             \<and> (\<exists>node. stored_node s (it_nids it ! it_index it) = Some node \<and> v = fromJson node)"
    by (auto simp: Iterator_next_well_typed [OF assms] split: if_splits option.splits)
  then obtain node where i: "it_index it < length (it_nids it)"
    and node: "stored_node s (it_nids it ! it_index it) = Some node" "v = fromJson node"
    by blast
  from i have "it_nids it ! it_index it \<in> set (it_nids it)" by (rule nth_mem)
  with node show "\<exists>n \<in> set (it_nids it). \<exists>node. stored_node s n = Some node \<and> v = fromJson node"
    by blast
qed

lemma stored_node_store_linked_n1:
  "stored_node store_linked ''n1'' = Some (new_node ''n1'' 7 args_plain)"
  using createNode_store_get_node [OF store_linked_created(1), of "''n1''"] stored_node_store_one [of "''n1''"]
  by (simp add: stored_node_def)

theorem Iterator_next_snapshot_witness:
  "Iterator_next (\<lambda>n. n) store_linked (iterator_one 0)
     = (Inr (Some (new_node ''n1'' 7 args_plain)), iterator_one 1)
   \<and> Iterator_next (\<lambda>n. n) store_linked (iterator_one 1) = (Inr None, iterator_one 1)"
proof -
  note first = Iterator_next_snapshot [OF store_linked_created(2), of "\<lambda>n. n" "iterator_one 0", THEN conjunct1]
  note second = Iterator_next_snapshot [OF store_linked_created(2), of "\<lambda>n. n" "iterator_one 1", THEN conjunct1]
  have "Iterator_next (\<lambda>n. n) store_linked (iterator_one 0)
          = (Inr (Some (new_node ''n1'' 7 args_plain)), iterator_one 1)"
    unfolding first by (simp add: iterator_one_def stored_node_store_linked_n1)
  moreover have "Iterator_next (\<lambda>n. n) store_linked (iterator_one 1) = (Inr None, iterator_one 1)"
    unfolding second by (simp add: iterator_one_def)
  ultimately show ?thesis by (rule conjI)
qed

lemma stored_elems_empty_store: "stored_elems empty_store y = []"
  by (simp add: stored_elems_def store_get_def empty_store_def)

lemma listed_tags_store_one: "listed_tags store_one = [\<lparr>tag_nid = ''n1'', tag_created_at = 7\<rparr>]"
  using createNode_listing [OF store_one_created(1)]
  by (simp add: listed_tags_def stored_elems_empty_store List.map_filter_simps args_plain_def orElse_def)

lemma Iterator_create_store_one: "Iterator_create store_one = Inr (iterator_one 0)"
  by (simp add: Iterator_create_def getAllNids_well_typed [OF store_one_created(2)]
                listed_tags_store_one iterator_one_def)

lemma store_one_deleted_done:
  "deleteNode store_one ''n1'' = (Inr (), store_one_deleted)" "well_typed store_one_deleted"
proof -
  have "distinct (linked_nids store_one ''n1'')"
    by (simp add: linked_nids_def stored_edges_def store_one_no_edges List.map_filter_simps)
  from deleteNode_succeeds [OF store_one_created(2) this]
  show "deleteNode store_one ''n1'' = (Inr (), store_one_deleted)" "well_typed store_one_deleted"
    by (auto simp: store_one_deleted_def)
qed

text \<open>
  C9, as stated, fails for deletions: an iterator is built over the one node \<open>n1\<close>, the
  node is deleted, and \<^verbatim>\<open>next\<close>, which would have yielded the node, now fails.
\<close>

theorem deletion_reaches_iterator_counterexample:
  "Iterator_create store_one = Inr (iterator_one 0)
   \<and> deleteNode store_one ''n1'' = (Inr (), store_one_deleted)
   \<and> Iterator_next nid store_one (iterator_one 0) = (Inr (Some ''n1''), iterator_one 1)
   \<and> Iterator_next nid store_one_deleted (iterator_one 0)
       = (Inl (IteratorNodeNotFound ''n1''), iterator_one 0)"
proof -
  have "stored_node store_one_deleted ''n1'' = None"
    using deleteNode_effect(2) [OF store_one_created(2) store_one_deleted_done(1)]
    by (simp add: stored_node_def)
  then show ?thesis
    by (simp add: Iterator_create_store_one store_one_deleted_done(1)
                  Iterator_next_well_typed [OF store_one_created(2)]
                  Iterator_next_well_typed [OF store_one_deleted_done(2)]
                  iterator_one_def stored_node_store_one)
qed


section \<open>Further facts about the writes\<close>

text \<open>Every modelled write keeps the store well typed, whatever its outcome.\<close>

lemma deleteNode_well_typed:
  assumes "well_typed s" and "deleteNode s n = (r, s')"
  shows "well_typed s'"
  using well_typed_set [OF well_typed_remove [OF assms(1)] _ removal_batch_ok [OF assms(1)]] assms(2)
  by (simp add: deleteNode_well_typed_eq [OF assms(1)])

lemma createEdge_well_typed:
  assumes "well_typed s" and "createEdge new_eid now s a b = (r, s')"
  shows "well_typed s'"
proof -
  let ?e = "\<lparr>eid = new_eid, from_nid = a, to_nid = b, crtd = now, upd = now, is_sticky = False\<rparr>"
  let ?r1 = "(NidToEdgeYek a, arr_lav K_nid_to_edge (stored_elems s (NidToEdgeYek a) @ [EdgeE ?e]))"
  let ?r2 = "(NidToEdgeYek b, arr_lav K_nid_to_edge (stored_elems s (NidToEdgeYek b) @ [EdgeE ?e]))"
  have p1: "prepareAppend s (NidToEdgeYek a) (arr_lav K_nid_to_edge [EdgeE ?e]) = Inr ?r1"
    and ok1: "lav_ok (fst ?r1) (snd ?r1)"
    using prepareAppend_well_typed [OF assms(1), of "NidToEdgeYek a" K_nid_to_edge "[EdgeE ?e]"]
    by (simp_all add: lav_ok_arr is_array_kind_def)
  have p2: "prepareAppend s (NidToEdgeYek b) (arr_lav K_nid_to_edge [EdgeE ?e]) = Inr ?r2"
    and ok2: "lav_ok (fst ?r2) (snd ?r2)"
    using prepareAppend_well_typed [OF assms(1), of "NidToEdgeYek b" K_nid_to_edge "[EdgeE ?e]"]
    by (simp_all add: lav_ok_arr is_array_kind_def)
  obtain r0 where "store_set s [?r1, ?r2] = (r0, s')"
    using assms(2) p1 p2 by (auto simp: createEdge_def Let_def split: sum.splits prod.splits)
  from well_typed_set [OF assms(1) this] ok1 ok2 show ?thesis by simp
qed

lemma advanceUserIngestionProgress_well_typed:
  assumes "well_typed s" and "advanceUserIngestionProgress s e w = (r, s')"
  shows "well_typed s'"
proof (cases "getUserIngestionProgress s e")
  case (Inl err)
  with assms show ?thesis by (simp add: advanceUserIngestionProgress_def)
next
  case (Inr p0)
  with assms(2) have "store_set s
             [(ExtPipelineYek e,
               \<lparr>kind = K_ext_pipe_id_to_progress,
                lav_value = ProgressV \<lparr>stored_epid = Some (epid p0), stored_ingested_until = w\<rparr>,
                auxiliary = None\<rparr>)] = (r, s')"
    by (simp add: advanceUserIngestionProgress_def Let_def)
  from well_typed_set [OF assms(1) this] show ?thesis by (simp add: lav_ok_def)
qed

lemma recordAssociation_keeps_well_typed:
  assumes "well_typed s" and "recordAssociation s from to assoc = (r, s')"
  shows "well_typed s'"
proof -
  let ?l1 = "push_assoc (orEmpty (store_get s (assoc_yek from)))
                 \<lparr>direction = DirTo, other = to, association = assoc\<rparr> (stored_elems s (assoc_yek from))"
  let ?l2 = "push_assoc (orEmpty (store_get s (assoc_yek to)))
                 \<lparr>direction = DirFrom, other = from, association = assoc\<rparr> (stored_elems s (assoc_yek to))"
  note b1 = assoc_bucket_well_typed [OF assms(1), of "from"]
  note b2 = assoc_bucket_well_typed [OF assms(1), of to]
  have ok: "lav_ok (assoc_yek from) ?l1" "lav_ok (assoc_yek to) ?l2"
    using b1 b2 by (simp_all add: lav_ok_def push_assoc_def assoc_yek_def is_array_kind_def)
  from assms(2) have "s' = s \<or> store_set s [(assoc_yek from, ?l1), (assoc_yek to, ?l2)] = (r, s')"
    by (auto simp: recordAssociation_well_typed [OF assms(1)] split: if_splits)
  then show ?thesis
  proof
    assume "s' = s"
    with assms(1) show ?thesis by simp
  next
    assume "store_set s [(assoc_yek from, ?l1), (assoc_yek to, ?l2)] = (r, s')"
    from well_typed_set [OF assms(1) this] ok show ?thesis by simp
  qed
qed

text \<open>
  When the adjacency bucket of a node names some neighbour twice, \<^verbatim>\<open>deleteNode\<close> does not
  complete: the removals have been applied when \<^verbatim>\<open>set\<close> rejects the batch of proposed
  buckets.
\<close>

lemma deleteNode_repeated_neighbour:
  assumes "well_typed s" and "\<not> distinct (linked_nids s n)"
  shows "\<exists>key. deleteNode s n
           = (Inl (SetDuplicateKey key),
              store_remove s [NidToNodeYek n, NidToEdgeYek n, NidToNodeSimilaritySearchInfoYek n])"
proof -
  have kinds: "\<forall>(y, l) \<in> set (removal_batch s n). yek_kind y = kind l"
    using removal_batch_ok [OF assms(1), of n] by (auto simp: lav_ok_def)
  have "\<not> distinct (map fst (removal_batch s n))"
    using assms(2) by (simp add: fst_removal_batch distinct_map inj_on_def)
  then have "\<not> distinct (map (stringify \<circ> fst) (removal_batch s n))"
    by (simp add: distinct_map inj_on_def flip: map_map)
  from store_set_duplicate [OF kinds this] show ?thesis
    by (simp add: deleteNode_well_typed_eq [OF assms(1)])
qed

lemma isOfArrayKind_iff: "isOfArrayKind lav \<longleftrightarrow> (\<exists>xs. lav_value lav = ArrV xs)"
  by (cases "lav_value lav") (simp_all add: isOfArrayKind_def)

lemma stored_elems_array_value: "stored_elems s yek = array_value (store_get s yek)"
  by (simp add: stored_elems_def array_value_def)


section \<open>A delete that does not complete, and its retry\<close>

lemma stored_elems_cong: "store_get s' y = store_get s y \<Longrightarrow> stored_elems s' y = stored_elems s y"
  by (simp add: stored_elems_def)

lemma createNode_own_bucket:
  assumes "createNode n new_eid now s args = (Inr n', s')" and "neighbours args \<noteq> []"
  shows "stored_elems s' (NidToEdgeYek n)
           = map EdgeE (new_from_edges new_eid (new_node n now args) (orElse (arg_from_nid args) [])
                        @ new_to_edges new_eid (new_node n now args)
                            (length (orElse (arg_from_nid args) [])) (orElse (arg_to_nid args) []))"
proof -
  let ?node = "new_node n now args"
  let ?fs = "new_from_edges new_eid ?node (orElse (arg_from_nid args) [])"
  let ?ts = "new_to_edges new_eid ?node (length (orElse (arg_from_nid args) [])) (orElse (arg_to_nid args) [])"
  from assms(1) obtain records where
    rs: "createNode_records s new_eid ?node args = Inr records"
    and set: "store_set s records = (Inr (), s')"
    by (auto simp: createNode_Inr)
  from createNode_records_edges [OF rs] obtain es where
    es: "edge_records s new_eid ?node args = Inr es" and sub: "set es \<subseteq> set records"
    by blast
  from es assms(2) have "(NidToEdgeYek (nid ?node), arr_lav K_nid_to_edge (map EdgeE (?fs @ ?ts))) \<in> set es"
    by (auto simp: edge_records_def neighbours_def Let_def bindE_eq_Inr)
  with sub store_get_after_set_in [OF set]
  have "store_get s' (NidToEdgeYek n) = Some (arr_lav K_nid_to_edge (map EdgeE (?fs @ ?ts)))"
    by auto
  then show ?thesis by (simp add: stored_elems_def [of s'] arr_lav_def)
qed

lemma createEdge_succeeds:
  assumes "well_typed s" and "a \<noteq> b"
  shows "\<exists>s'. createEdge new_eid now s a b
                 = (Inr \<lparr>eid = new_eid, from_nid = a, to_nid = b, crtd = now, upd = now, is_sticky = False\<rparr>, s')"
proof -
  let ?e = "\<lparr>eid = new_eid, from_nid = a, to_nid = b, crtd = now, upd = now, is_sticky = False\<rparr>"
  let ?r1 = "(NidToEdgeYek a, arr_lav K_nid_to_edge (stored_elems s (NidToEdgeYek a) @ [EdgeE ?e]))"
  let ?r2 = "(NidToEdgeYek b, arr_lav K_nid_to_edge (stored_elems s (NidToEdgeYek b) @ [EdgeE ?e]))"
  have p1: "prepareAppend s (NidToEdgeYek a) (arr_lav K_nid_to_edge [EdgeE ?e]) = Inr ?r1"
    using prepareAppend_well_typed [OF assms(1), of "NidToEdgeYek a" K_nid_to_edge "[EdgeE ?e]"]
    by (simp add: lav_ok_arr is_array_kind_def)
  have p2: "prepareAppend s (NidToEdgeYek b) (arr_lav K_nid_to_edge [EdgeE ?e]) = Inr ?r2"
    using prepareAppend_well_typed [OF assms(1), of "NidToEdgeYek b" K_nid_to_edge "[EdgeE ?e]"]
    by (simp add: lav_ok_arr is_array_kind_def)
  have "store_set s [?r1, ?r2] = (Inr (), substrate_set s (to_records [?r1, ?r2]))"
    using assms(2) by (simp add: store_set_Inr arr_lav_def)
  with p1 p2 show ?thesis by (simp add: createEdge_def Let_def)
qed

lemma createEdge_store_get_other:
  assumes "createEdge new_eid now s a b = (Inr edge, s')" and "y \<noteq> NidToEdgeYek a" and "y \<noteq> NidToEdgeYek b"
  shows "store_get s' y = store_get s y"
proof -
  let ?e = "\<lparr>eid = new_eid, from_nid = a, to_nid = b, crtd = now, upd = now, is_sticky = False\<rparr>"
  from assms(1) obtain r1 r2 where
    r1: "prepareAppend s (NidToEdgeYek a) (arr_lav K_nid_to_edge [EdgeE ?e]) = Inr r1"
    and r2: "prepareAppend s (NidToEdgeYek b) (arr_lav K_nid_to_edge [EdgeE ?e]) = Inr r2"
    and set: "store_set s [r1, r2] = (Inr (), s')"
    by (auto simp: createEdge_def Let_def bindE_eq_Inr split: sum.splits prod.splits)
  from prepareAppend_Inr [OF r1] prepareAppend_Inr [OF r2] assms(2,3)
  have "y \<notin> fst ` set [r1, r2]" by auto
  from store_get_after_set_notin [OF set this] show ?thesis .
qed

lemma store_linked_own_bucket: "stored_elems store_linked (NidToEdgeYek ''n2'') = [EdgeE edge_n1_n2]"
proof -
  have "neighbours (args_linked [''n1''] []) \<noteq> []"
    by (simp add: neighbours_def args_linked_def orElse_def)
  from createNode_own_bucket [OF store_linked_created(1) this] show ?thesis
    by (simp add: new_from_edges_def new_to_edges_def new_node_def edge_n1_n2_def args_linked_def
                  args_plain_def orElse_def Let_def)
qed

lemma store_linked_listing:
  "stored_elems store_linked AllNidsYek
     = [TagE \<lparr>tag_nid = ''n1'', tag_created_at = 7\<rparr>, TagE \<lparr>tag_nid = ''n2'', tag_created_at = 8\<rparr>]"
  using createNode_listing [OF store_linked_created(1)] createNode_listing [OF store_one_created(1)]
  by (simp add: stored_elems_empty_store args_linked_def args_plain_def orElse_def)

lemma store_linked_node_n1:
  "store_get store_linked (NidToNodeYek ''n1'') = Some (node_lav (new_node ''n1'' 7 args_plain) args_plain)"
  using createNode_store_get_node [OF store_linked_created(1), of "''n1''"]
        createNode_store_get_node [OF store_one_created(1), of "''n1''"]
  by simp

lemma store_double_created:
  "createEdge ''e9'' 9 store_linked ''n2'' ''n1'' = (Inr edge_n2_n1, store_double)"
proof -
  from createEdge_succeeds [OF store_linked_created(2), of "''n2''" "''n1''" "''e9''" 9]
  show ?thesis by (auto simp: store_double_def edge_n2_n1_def)
qed

lemma store_double_well_typed: "well_typed store_double"
  using createEdge_well_typed [OF store_linked_created(2) store_double_created] .

lemma store_double_buckets:
  "stored_elems store_double (NidToEdgeYek ''n1'') = [EdgeE edge_n1_n2, EdgeE edge_n2_n1]"
  "stored_elems store_double (NidToEdgeYek ''n2'') = [EdgeE edge_n1_n2, EdgeE edge_n2_n1]"
  using createEdge_buckets(2,3) [OF store_double_created]
  by (simp_all add: store_linked_bucket store_linked_own_bucket)

lemma store_double_others:
  "stored_elems store_double AllNidsYek
     = [TagE \<lparr>tag_nid = ''n1'', tag_created_at = 7\<rparr>, TagE \<lparr>tag_nid = ''n2'', tag_created_at = 8\<rparr>]"
  "node_origin store_double ''n1'' = None"
proof -
  have "store_get store_double AllNidsYek = store_get store_linked AllNidsYek"
    by (rule createEdge_store_get_other [OF store_double_created]) simp_all
  from stored_elems_cong [OF this]
  show "stored_elems store_double AllNidsYek
     = [TagE \<lparr>tag_nid = ''n1'', tag_created_at = 7\<rparr>, TagE \<lparr>tag_nid = ''n2'', tag_created_at = 8\<rparr>]"
    by (simp add: store_linked_listing)
  have "store_get store_double (NidToNodeYek ''n1'') = store_get store_linked (NidToNodeYek ''n1'')"
    by (rule createEdge_store_get_other [OF store_double_created]) simp_all
  then show "node_origin store_double ''n1'' = None"
    by (simp add: node_origin_def store_linked_node_n1 node_lav_def args_plain_def)
qed

lemma store_double_linked: "linked_nids store_double ''n1'' = [''n2'', ''n2'']"
  by (simp add: linked_nids_def stored_edges_def store_double_buckets List.map_filter_simps
                edge_n1_n2_def edge_n2_n1_def)

lemma store_half_deleted_done:
  "deleteNode store_double ''n1'' = (Inl (SetDuplicateKey ''nid->edge:n2''), store_half_deleted)"
  "store_half_deleted
     = store_remove store_double
         [NidToNodeYek ''n1'', NidToEdgeYek ''n1'', NidToNodeSimilaritySearchInfoYek ''n1'']"
proof -
  have "deleteNode store_double ''n1''
          = (Inl (SetDuplicateKey ''nid->edge:n2''),
             store_remove store_double
               [NidToNodeYek ''n1'', NidToEdgeYek ''n1'', NidToNodeSimilaritySearchInfoYek ''n1''])"
    by (simp add: deleteNode_well_typed_eq [OF store_double_well_typed] removal_batch_def
                  store_double_linked store_double_others removal_item_def store_set_def arr_lav_def)
  then show "deleteNode store_double ''n1'' = (Inl (SetDuplicateKey ''nid->edge:n2''), store_half_deleted)"
    and "store_half_deleted
     = store_remove store_double
         [NidToNodeYek ''n1'', NidToEdgeYek ''n1'', NidToNodeSimilaritySearchInfoYek ''n1'']"
    by (simp_all add: store_half_deleted_def)
qed

lemma store_half_deleted_well_typed: "well_typed store_half_deleted"
  using deleteNode_well_typed [OF store_double_well_typed store_half_deleted_done(1)] .

lemma store_half_deleted_facts:
  "stored_elems store_half_deleted (NidToEdgeYek ''n1'') = []"
  "stored_elems store_half_deleted (NidToEdgeYek ''n2'') = [EdgeE edge_n1_n2, EdgeE edge_n2_n1]"
  "stored_elems store_half_deleted AllNidsYek
     = [TagE \<lparr>tag_nid = ''n1'', tag_created_at = 7\<rparr>, TagE \<lparr>tag_nid = ''n2'', tag_created_at = 8\<rparr>]"
  "store_get store_half_deleted (NidToNodeYek ''n1'') = None"
proof -
  show "stored_elems store_half_deleted (NidToEdgeYek ''n1'') = []"
    by (simp add: stored_elems_def store_half_deleted_done(2) store_get_after_remove)
  have "store_get store_half_deleted (NidToEdgeYek ''n2'') = store_get store_double (NidToEdgeYek ''n2'')"
    by (simp add: store_half_deleted_done(2) store_get_after_remove)
  from stored_elems_cong [OF this]
  show "stored_elems store_half_deleted (NidToEdgeYek ''n2'') = [EdgeE edge_n1_n2, EdgeE edge_n2_n1]"
    by (simp add: store_double_buckets)
  have "store_get store_half_deleted AllNidsYek = store_get store_double AllNidsYek"
    by (simp add: store_half_deleted_done(2) store_get_after_remove)
  from stored_elems_cong [OF this]
  show "stored_elems store_half_deleted AllNidsYek
     = [TagE \<lparr>tag_nid = ''n1'', tag_created_at = 7\<rparr>, TagE \<lparr>tag_nid = ''n2'', tag_created_at = 8\<rparr>]"
    by (simp add: store_double_others)
  show "store_get store_half_deleted (NidToNodeYek ''n1'') = None"
    by (simp add: store_half_deleted_done(2) store_get_after_remove)
qed

lemma store_half_deleted_linked: "linked_nids store_half_deleted ''n1'' = []"
  by (simp add: linked_nids_def stored_edges_def store_half_deleted_facts List.map_filter_simps)

lemma store_retried_done:
  "deleteNode store_half_deleted ''n1'' = (Inr (), store_retried)" "well_typed store_retried"
proof -
  have "distinct (linked_nids store_half_deleted ''n1'')"
    by (simp add: store_half_deleted_linked)
  from deleteNode_succeeds [OF store_half_deleted_well_typed this]
  show "deleteNode store_half_deleted ''n1'' = (Inr (), store_retried)" "well_typed store_retried"
    by (auto simp: store_retried_def)
qed

lemma store_retried_bucket:
  "stored_elems store_retried (NidToEdgeYek ''n2'') = [EdgeE edge_n1_n2, EdgeE edge_n2_n1]"
proof -
  let ?s0 = "store_remove store_half_deleted
               [NidToNodeYek ''n1'', NidToEdgeYek ''n1'', NidToNodeSimilaritySearchInfoYek ''n1'']"
  have set: "store_set ?s0 (removal_batch store_half_deleted ''n1'') = (Inr (), store_retried)"
    using store_retried_done(1) by (simp add: deleteNode_well_typed_eq [OF store_half_deleted_well_typed])
  have "NidToEdgeYek ''n2'' \<notin> set (map fst (removal_batch store_half_deleted ''n1''))"
    by (auto simp: fst_removal_batch store_half_deleted_linked split: option.splits)
  then have "NidToEdgeYek ''n2'' \<notin> fst ` set (removal_batch store_half_deleted ''n1'')" by simp
  from store_get_after_set_notin [OF set this]
  have "store_get store_retried (NidToEdgeYek ''n2'') = store_get store_half_deleted (NidToEdgeYek ''n2'')"
    by (simp add: store_get_after_remove)
  from stored_elems_cong [OF this] show ?thesis by (simp add: store_half_deleted_facts)
qed

text \<open>
  C1 fails on the code. Nodes \<open>n1\<close> and \<open>n2\<close> are created with the edge from \<open>n1\<close> to
  \<open>n2\<close>, and a second edge is created from \<open>n2\<close> to \<open>n1\<close>. \<^verbatim>\<open>prepareNodeRemoval\<close> proposes
  one new bucket per edge of \<open>n1\<close>, hence two for the key of \<open>n2\<close>: the first
  \<^verbatim>\<open>deleteNode\<close> of \<open>n1\<close> removes the records of \<open>n1\<close> and is then rejected by \<^verbatim>\<open>set\<close>,
  leaving \<open>n1\<close> in the listing. The second \<^verbatim>\<open>deleteNode\<close> of \<open>n1\<close> completes; it finds no
  bucket for \<open>n1\<close>, so the bucket of \<open>n2\<close> keeps both edges that name \<open>n1\<close>.
\<close>

theorem deleteNode_leaves_edges_after_retry:
  "createNode ''n1'' eid_numbered 7 empty_store args_plain = (Inr ''n1'', store_one)
   \<and> createNode ''n2'' eid_numbered 8 store_one (args_linked [''n1''] []) = (Inr ''n2'', store_linked)
   \<and> createEdge ''e9'' 9 store_linked ''n2'' ''n1'' = (Inr edge_n2_n1, store_double)
   \<and> deleteNode store_double ''n1'' = (Inl (SetDuplicateKey ''nid->edge:n2''), store_half_deleted)
   \<and> getAllNids store_half_deleted = Inr [''n2'', ''n1'']
   \<and> getNode nid store_half_deleted ''n1'' = Inl (NodeNotFound ''n1'')
   \<and> deleteNode store_half_deleted ''n1'' = (Inr (), store_retried)
   \<and> edges_of (store_get store_retried (NidToEdgeYek ''n2'')) = Inr [edge_n1_n2, edge_n2_n1]
   \<and> from_nid edge_n1_n2 = ''n1'' \<and> to_nid edge_n2_n1 = ''n1''
   \<and> getAllNids store_retried = Inr [''n2'']
   \<and> getNode nid store_retried ''n1'' = Inl (NodeNotFound ''n1'')"
proof -
  have l1: "listed_tags store_half_deleted
              = [\<lparr>tag_nid = ''n1'', tag_created_at = 7\<rparr>, \<lparr>tag_nid = ''n2'', tag_created_at = 8\<rparr>]"
    by (simp add: listed_tags_def store_half_deleted_facts List.map_filter_simps)
  have g1: "getAllNids store_half_deleted = Inr [''n2'', ''n1'']"
    by (simp add: getAllNids_well_typed [OF store_half_deleted_well_typed] l1)
  have n1: "getNode nid store_half_deleted ''n1'' = Inl (NodeNotFound ''n1'')"
    by (simp add: getNode_def store_half_deleted_facts)
  note eff = deleteNode_effect [OF store_half_deleted_well_typed store_retried_done(1)]
  have e2: "edges_of (store_get store_retried (NidToEdgeYek ''n2'')) = Inr [edge_n1_n2, edge_n2_n1]"
    by (simp add: edges_of_well_typed(1) [OF store_retried_done(2)] stored_edges_def
                  store_retried_bucket List.map_filter_simps)
  have l2: "listed_tags store_retried = [\<lparr>tag_nid = ''n2'', tag_created_at = 8\<rparr>]"
    by (simp add: listed_tags_def eff(3) store_half_deleted_facts List.map_filter_simps)
  have g2: "getAllNids store_retried = Inr [''n2'']"
    by (simp add: getAllNids_well_typed [OF store_retried_done(2)] l2)
  have n2: "getNode nid store_retried ''n1'' = Inl (NodeNotFound ''n1'')"
    by (simp add: getNode_def eff(2))
  have ends: "from_nid edge_n1_n2 = ''n1''" "to_nid edge_n2_n1 = ''n1''"
    by (simp_all add: edge_n1_n2_def edge_n2_n1_def)
  from store_one_created(1) store_linked_created(1) store_double_created store_half_deleted_done(1)
       g1 n1 store_retried_done(1) e2 ends g2 n2
  show ?thesis by (intro conjI)
qed


section \<open>Associations that are not recorded\<close>

lemma record_on_empty:
  "recordAssociation empty_store from to assoc
     = store_set empty_store
         [(assoc_yek from,
           arr_lav K_origin_to_ext_assoc [AssocE \<lparr>direction = DirTo, other = to, association = assoc\<rparr>]),
          (assoc_yek to,
           arr_lav K_origin_to_ext_assoc [AssocE \<lparr>direction = DirFrom, other = from, association = assoc\<rparr>])]"
proof -
  have "store_get empty_store (assoc_yek from) = None" "store_get empty_store (assoc_yek to) = None"
    by (simp_all add: store_get_def empty_store_def)
  then show ?thesis
    by (simp add: recordAssociation_well_typed [OF well_typed_empty] stored_elems_empty_store references_def
                  push_assoc_def orEmpty_def arr_lav_def)
qed

lemma store_reverse_done:
  "store_set empty_store
     [(assoc_yek origin_b,
       arr_lav K_origin_to_ext_assoc [AssocE \<lparr>direction = DirTo, other = origin_a, association = ''t''\<rparr>]),
      (assoc_yek origin_a,
       arr_lav K_origin_to_ext_assoc [AssocE \<lparr>direction = DirFrom, other = origin_b, association = ''t''\<rparr>])]
     = (Inr (), store_reverse)"
proof -
  let ?items = "[(assoc_yek origin_b,
       arr_lav K_origin_to_ext_assoc [AssocE \<lparr>direction = DirTo, other = origin_a, association = ''t''\<rparr>]),
      (assoc_yek origin_a,
       arr_lav K_origin_to_ext_assoc [AssocE \<lparr>direction = DirFrom, other = origin_b, association = ''t''\<rparr>])]"
  have "store_set empty_store ?items = (Inr (), substrate_set empty_store (to_records ?items))"
    by (simp add: store_set_Inr assoc_yek_def arr_lav_def origin_a_def origin_b_def)
  then show ?thesis
    by (simp add: store_reverse_def record_on_empty)
qed

lemma store_reverse_well_typed: "well_typed store_reverse"
  using well_typed_set [OF well_typed_empty store_reverse_done]
  by (simp add: lav_ok_arr assoc_yek_def is_array_kind_def)

lemma store_reverse_get:
  "store_get store_reverse (assoc_yek origin_a)
     = Some (arr_lav K_origin_to_ext_assoc
               [AssocE \<lparr>direction = DirFrom, other = origin_b, association = ''t''\<rparr>])"
  "store_get store_reverse (OriginToNidYek k) = None"
proof -
  show "store_get store_reverse (assoc_yek origin_a)
     = Some (arr_lav K_origin_to_ext_assoc
               [AssocE \<lparr>direction = DirFrom, other = origin_b, association = ''t''\<rparr>])"
    by (rule store_get_after_set_in [OF store_reverse_done]) simp
  have "store_get store_reverse (OriginToNidYek k) = store_get empty_store (OriginToNidYek k)"
    by (rule store_get_after_set_notin [OF store_reverse_done]) (simp add: assoc_yek_def)
  then show "store_get store_reverse (OriginToNidYek k) = None"
    by (simp add: store_get_def empty_store_def)
qed

lemma getAssociations_store_reverse:
  "getAssociations store_reverse origin_a
     = Inr \<lparr>resp_from = [\<lparr>assoc_from = \<lparr>end_origin_hash = 2, end_nids = []\<rparr>,
                          assoc_to = \<lparr>end_origin_hash = 1, end_nids = []\<rparr>,
                          assoc_type = ''t''\<rparr>],
            resp_to = []\<rparr>"
proof -
  have batch: "store_get_batch store_reverse [OriginToNidYek origin_b, OriginToNidYek origin_a] = []"
    by (simp add: store_get_batch_eq store_reverse_get(2) List.map_filter_simps)
  have "store_get store_reverse (OriginToExtAssociationYek origin_a)
     = Some (arr_lav K_origin_to_ext_assoc
               [AssocE \<lparr>direction = DirFrom, other = origin_b, association = ''t''\<rparr>])"
    using store_reverse_get(1) by (simp add: assoc_yek_def)
  moreover have "origin_hash origin_a = 1" "origin_hash origin_b = 2"
    by (simp_all add: origin_a_def origin_b_def)
  ultimately show ?thesis
    by (simp add: getAssociations_def arr_lav_def assoc_of_elem_def batch Let_def
                  enrich_from_def makeAssociationEnd_def orElse_def)
qed

lemma stringify_assoc_origin_a: "stringify (assoc_yek origin_a) = ''origin->ext-assoc:1''"
  by (simp add: assoc_yek_def origin_a_def number_toString_def nat_toString.simps [of "Suc 0"] digit_char_def)

lemma record_self_rejected:
  "recordAssociation empty_store origin_a origin_a ''t''
     = (Inl (SetDuplicateKey ''origin->ext-assoc:1''), empty_store)"
proof -
  have "yek_kind (assoc_yek origin_a) = K_origin_to_ext_assoc" by (simp add: assoc_yek_def)
  with stringify_assoc_origin_a show ?thesis
    by (simp add: record_on_empty store_set_def arr_lav_def)
qed

text \<open>
  C3, as stated, fails. After the association from \<open>origin_b\<close> to \<open>origin_a\<close> has been
  recorded, recording the one from \<open>origin_a\<close> to \<open>origin_b\<close> returns success without a
  write, and \<^verbatim>\<open>getAssociations\<close> of \<open>origin_a\<close> lists nothing under \<^verbatim>\<open>to\<close>: the test on
  the bucket looks at the other origin only, not at the direction. Recording an
  association of an origin with itself is rejected by \<^verbatim>\<open>set\<close>, both entries having
  the same key.
\<close>

theorem reverse_association_blocks_counterexample:
  "recordAssociation empty_store origin_b origin_a ''t'' = (Inr (), store_reverse)
   \<and> recordAssociation store_reverse origin_a origin_b ''t'' = (Inr (), store_reverse)
   \<and> getAssociations store_reverse origin_a
       = Inr \<lparr>resp_from = [\<lparr>assoc_from = \<lparr>end_origin_hash = 2, end_nids = []\<rparr>,
                            assoc_to = \<lparr>end_origin_hash = 1, end_nids = []\<rparr>,
                            assoc_type = ''t''\<rparr>],
              resp_to = []\<rparr>
   \<and> recordAssociation empty_store origin_a origin_a ''t''
       = (Inl (SetDuplicateKey ''origin->ext-assoc:1''), empty_store)"
proof -
  have first: "recordAssociation empty_store origin_b origin_a ''t'' = (Inr (), store_reverse)"
    by (simp add: record_on_empty store_reverse_done)
  have "references (origin_hash origin_b) (stored_elems store_reverse (assoc_yek origin_a))"
    by (simp add: stored_elems_def store_reverse_get(1) arr_lav_def references_def)
  then have second: "recordAssociation store_reverse origin_a origin_b ''t'' = (Inr (), store_reverse)"
    by (simp add: recordAssociation_well_typed [OF store_reverse_well_typed])
  from first second getAssociations_store_reverse record_self_rejected show ?thesis
    by (intro conjI)
qed


end
